theory Spec2Isabelle
  imports Complex_Main "HOL-Library.Multiset"
begin

section \<open>The environment: file system, paths, clock, console\<close>

text \<open>
  The program reads a directory tree through \<^verbatim>\<open>os.walk\<close>, \<^verbatim>\<open>os.path.isfile\<close> and
  \<^verbatim>\<open>os.path.getsize\<close>.  A directory entry is modelled by what these calls answer
  for it.  A non-directory entry is asked twice during a build.  While folder sizes are
  computed, \<open>get_folder_size\<close> asks \<^verbatim>\<open>os.path.isfile\<close> and \<^verbatim>\<open>os.path.getsize\<close> (lines 35
  and 37); the entry carries these answers as \<open>isfile\<close> and \<open>getsize\<close> (\<open>None\<close>: the call
  raises \<^verbatim>\<open>OSError\<close>).  Later the file loop asks \<^verbatim>\<open>os.path.getsize\<close> again (line 156, and
  line 83 in \<open>build_dod\<close>), after the sizes of all folders above the file have been
  computed; the entry carries that answer as \<open>getsize_later\<close>.  The two answers are the
  same for a file that does not change during the build; they differ for a file that is
  removed, truncated or made unreadable in between.  A directory carries whether
  \<^verbatim>\<open>os.scandir\<close> can list it, and its entries in listing order.  Listings do not change
  during one build, and symbolic links to directories are not modelled.
\<close>

datatype entry =
    File (ename: string) (isfile: bool) (getsize: "nat option") (getsize_later: "nat option")
  | Dir (ename: string) (listable: bool) (entries: "entry list")

fun is_dir :: "entry \<Rightarrow> bool" where
  "is_dir (Dir n ok es) = True"
| "is_dir (File n f s l) = False"


text \<open>\<^verbatim>\<open>posixpath.join\<close> with two arguments and \<^verbatim>\<open>posixpath.basename\<close>.\<close>

definition join :: "string \<Rightarrow> string \<Rightarrow> string" where
  "join a b =
     (if b \<noteq> [] \<and> hd b = CHR ''/'' then b
      else if a = [] \<or> last a = CHR ''/'' then a @ b
      else a @ ''/'' @ b)"

definition basename :: "string \<Rightarrow> string" where
  "basename p = rev (takeWhile (\<lambda>c. c \<noteq> CHR ''/'') (rev p))"

text \<open>
  \<^verbatim>\<open>os.walk(top)\<close>, top-down, without \<^verbatim>\<open>onerror\<close> and without following links.  Each
  yielded triple \<^verbatim>\<open>(dirpath, dirnames, filenames)\<close> is modelled with the entries in
  place of their names, and together with the directory that \<^verbatim>\<open>dirpath\<close> denotes, so
  that a later call on a path can be answered.  The caller may prune \<^verbatim>\<open>dirnames\<close> in
  place before the generator resumes; \<open>keep\<close> is that pruning, applied to the names.
  A directory that cannot be listed, and a top that is no directory, yield nothing.
  \<^verbatim>\<open>os.walk\<close> is taken as the iterative generator that it is since Python 3.12, so the
  depth of the directory tree does not bear on the call stack here.
\<close>

type_synonym walk_item = "string \<times> entry \<times> entry list \<times> entry list"

fun os_walk :: "(string \<Rightarrow> bool) \<Rightarrow> string \<Rightarrow> entry \<Rightarrow> walk_item list" where
  "os_walk keep dirpath (File n f s l) = []"
| "os_walk keep dirpath (Dir n ok es) =
     (if ok then
        (dirpath, Dir n ok es, [d \<leftarrow> es. is_dir d \<and> keep (ename d)], [f \<leftarrow> es. \<not> is_dir f])
          # concat (map (\<lambda>d. os_walk keep (join dirpath (ename d)) d)
                        [d \<leftarrow> es. is_dir d \<and> keep (ename d)])
      else [])"

fun walk_top :: "(string \<Rightarrow> bool) \<Rightarrow> string \<Rightarrow> entry option \<Rightarrow> walk_item list" where
  "walk_top keep dirpath None = []"
| "walk_top keep dirpath (Some e) = os_walk keep dirpath e"

text \<open>
  The console and the clock.  \<open>ticks\<close> counts the calls of \<^verbatim>\<open>time.monotonic()\<close> made
  so far; the \<open>k\<close>-th call returns \<open>clk k\<close>, for a function \<open>clk\<close> that is a
  parameter of the model.  \<open>stdout\<close> is the list of printed lines.  Times are real
  numbers of seconds, so the rounding of \<^verbatim>\<open>time.monotonic() + max_seconds\<close> is not
  modelled; file sizes are natural numbers.
\<close>

record world =
  ticks :: nat
  stdout :: "string list"

definition print :: "string \<Rightarrow> world \<Rightarrow> world" where
  "print s w = w\<lparr>stdout := stdout w @ [s]\<rparr>"

text \<open>\<^verbatim>\<open>deadline is not None and time.monotonic() > deadline\<close>: the clock is read only
  when there is a deadline.\<close>

definition expired :: "(nat \<Rightarrow> real) \<Rightarrow> real option \<Rightarrow> world \<Rightarrow> bool \<times> world" where
  "expired clk deadline w =
     (case deadline of
        None \<Rightarrow> (False, w)
      | Some d \<Rightarrow> (clk (ticks w) > d, w\<lparr>ticks := Suc (ticks w)\<rparr>))"

section \<open>core.py\<close>

definition DEFAULT_IGNORES :: "string list" where
  "DEFAULT_IGNORES =
     [''.git'', ''.venv'', ''venv'', ''bin'', ''__pycache__'', ''.ipynb_checkpoints'']"

definition warning :: "string \<Rightarrow> string" where
  "warning full_path = ''[WARNING] Could not access size of file: '' @ full_path"

subsection \<open>get_folder_size\<close>

text \<open>The inner loop over \<^verbatim>\<open>files\<close>; \<open>None\<close> is the early \<^verbatim>\<open>return None\<close>.  The
  variables \<^verbatim>\<open>root\<close> and \<^verbatim>\<open>total\<close> of the source are \<open>rootp\<close> and \<open>acc\<close> here.\<close>

fun size_files ::
  "(nat \<Rightarrow> real) \<Rightarrow> real option \<Rightarrow> string \<Rightarrow> entry list \<Rightarrow> nat \<Rightarrow> world \<Rightarrow> nat option \<times> world"
where
  "size_files clk deadline rootp [] acc w = (Some acc, w)"
| "size_files clk deadline rootp (f # fs) acc w =
     (case expired clk deadline w of
        (True, w1) \<Rightarrow> (None, w1)
      | (False, w1) \<Rightarrow>
          (let full_path = join rootp (ename f) in
           if isfile f then
             (case getsize f of
                Some n \<Rightarrow> size_files clk deadline rootp fs (acc + n) w1
              | None \<Rightarrow> size_files clk deadline rootp fs acc (print (warning full_path) w1))
           else size_files clk deadline rootp fs acc w1))"

text \<open>The outer loop over the triples of \<^verbatim>\<open>os.walk(path)\<close>.\<close>

fun size_walk ::
  "(nat \<Rightarrow> real) \<Rightarrow> real option \<Rightarrow> walk_item list \<Rightarrow> nat \<Rightarrow> world \<Rightarrow> nat option \<times> world"
where
  "size_walk clk deadline [] acc w = (Some acc, w)"
| "size_walk clk deadline ((rootp, e, dirs, files) # rest) acc w =
     (case expired clk deadline w of
        (True, w1) \<Rightarrow> (None, w1)
      | (False, w1) \<Rightarrow>
          (case size_files clk deadline rootp files acc w1 of
             (None, w2) \<Rightarrow> (None, w2)
           | (Some acc', w2) \<Rightarrow> size_walk clk deadline rest acc' w2))"

text \<open>\<open>get_folder_size clk path e deadline\<close>: \<open>e\<close> is what \<open>path\<close> denotes.\<close>

definition get_folder_size ::
  "(nat \<Rightarrow> real) \<Rightarrow> string \<Rightarrow> entry \<Rightarrow> real option \<Rightarrow> world \<Rightarrow> nat option \<times> world"
where
  "get_folder_size clk path e deadline w =
     size_walk clk deadline (os_walk (\<lambda>_. True) path e) 0 w"

subsection \<open>_normalize_ignores\<close>

text \<open>The argument \<^verbatim>\<open>ignore: Optional[Iterable[str]]\<close>: \<^verbatim>\<open>None\<close>, one string, or another
  iterable of strings.\<close>

datatype ignore_arg = IgnoreNone | IgnoreStr string | IgnoreNames "string list"

fun normalize_ignores :: "ignore_arg \<Rightarrow> string set" where
  "normalize_ignores IgnoreNone = set DEFAULT_IGNORES"
| "normalize_ignores (IgnoreStr s) = {s}"
| "normalize_ignores (IgnoreNames xs) = set xs"

subsection \<open>Python values and dictionaries\<close>

datatype pyval = PyStr string | PyInt nat | PyNone

fun size_val :: "nat option \<Rightarrow> pyval" where
  "size_val None = PyNone"
| "size_val (Some n) = PyInt n"

text \<open>A dictionary keeps insertion order; assigning to a present key keeps its place.\<close>

fun dict_set :: "('k \<times> 'v) list \<Rightarrow> 'k \<Rightarrow> 'v \<Rightarrow> ('k \<times> 'v) list" where
  "dict_set [] k v = [(k, v)]"
| "dict_set ((k', v') # kvs) k v =
     (if k' = k then (k, v) # kvs else (k', v') # dict_set kvs k v)"

definition dict_update :: "('k \<times> 'v) list \<Rightarrow> ('k \<times> 'v) list \<Rightarrow> ('k \<times> 'v) list" where
  "dict_update d new = fold (\<lambda>(k, v) d. dict_set d k v) new d"

type_synonym attrs = "(string \<times> pyval) list"

definition folder_attrs :: "string \<Rightarrow> pyval \<Rightarrow> attrs" where
  "folder_attrs nm sz =
     [(''type'', PyStr ''folder''), (''name'', PyStr nm), (''size_bytes'', sz)]"

definition file_attrs :: "string \<Rightarrow> pyval \<Rightarrow> attrs" where
  "file_attrs nm sz =
     [(''type'', PyStr ''file''), (''name'', PyStr nm), (''size_bytes'', sz)]"

subsection \<open>networkx.DiGraph, as far as the program uses it\<close>

text \<open>
  \<open>nodes\<close> is the node dictionary (node to attribute dictionary) in insertion order.
  \<open>edges\<close> lists the edges in insertion order, without duplicates; the successors of a
  node, in the order in which \<^verbatim>\<open>G[n]\<close> iterates, are the targets of its edges in that
  order.
\<close>

record digraph =
  nodes :: "(string \<times> attrs) list"
  edges :: "(string \<times> string) list"

definition empty_graph :: digraph where
  "empty_graph = \<lparr>nodes = [], edges = []\<rparr>"

definition has_node :: "digraph \<Rightarrow> string \<Rightarrow> bool" where
  "has_node g n = (n \<in> set (map fst (nodes g)))"

definition add_node :: "digraph \<Rightarrow> string \<Rightarrow> attrs \<Rightarrow> digraph" where
  "add_node g n a =
     (if has_node g n
      then g\<lparr>nodes := map (\<lambda>(k, d). if k = n then (k, dict_update d a) else (k, d)) (nodes g)\<rparr>
      else g\<lparr>nodes := nodes g @ [(n, a)]\<rparr>)"

definition add_edge :: "digraph \<Rightarrow> string \<Rightarrow> string \<Rightarrow> digraph" where
  "add_edge g u v =
     (let g1 = (if has_node g u then g else g\<lparr>nodes := nodes g @ [(u, [])]\<rparr>);
          g2 = (if has_node g1 v then g1 else g1\<lparr>nodes := nodes g1 @ [(v, [])]\<rparr>)
      in if (u, v) \<in> set (edges g2) then g2 else g2\<lparr>edges := edges g2 @ [(u, v)]\<rparr>)"

definition successors :: "digraph \<Rightarrow> string \<Rightarrow> string list" where
  "successors g n = map snd [e \<leftarrow> edges g. fst e = n]"

definition node_attrs :: "digraph \<Rightarrow> string \<Rightarrow> attrs option" where
  "node_attrs g n = map_of (nodes g) n"

text \<open>\<^verbatim>\<open>nx.is_weakly_connected\<close>: every node is reached from the first one along edges
  taken in either direction.  On the empty graph \<^verbatim>\<open>networkx\<close> raises an exception;
  \<open>tree_data\<close> calls it only after the count of nodes and edges has excluded that graph.\<close>

definition is_weakly_connected :: "digraph \<Rightarrow> bool" where
  "is_weakly_connected g =
     (case nodes g of
        [] \<Rightarrow> False
      | (n0, _) # _ \<Rightarrow>
          (\<forall>n \<in> set (map fst (nodes g)).
             n = n0 \<or> (n0, n) \<in> trancl (set (edges g @ map prod.swap (edges g)))))"

subsection \<open>json_graph.tree_data\<close>

text \<open>
  The result is a nested dictionary.  \<open>Tree a i cs\<close> stands for the dictionary
  \<^verbatim>\<open>{**a, "id": i}\<close>, with the further key \<^verbatim>\<open>"children"\<close> when \<open>cs\<close> is \<open>Some\<close>.
\<close>

datatype tree = Tree (tattrs: attrs) (tid: string) (tchildren: "tree list option")

datatype error =
    TypeError string | KeyError string | SystemExit string | OSError string | RecursionError

text \<open>
  The inner function \<^verbatim>\<open>add_children\<close> recurses along the successors.  The recursion is
  not structural, so it takes fuel; \<open>None\<close> is a recursion that does not end within
  the fuel.  A node missing from the node dictionary is a \<^verbatim>\<open>KeyError\<close>.
\<close>

fun collect :: "(error + 'a) option list \<Rightarrow> (error + 'a list) option" where
  "collect [] = Some (Inr [])"
| "collect (None # rs) = None"
| "collect (Some (Inl e) # rs) = Some (Inl e)"
| "collect (Some (Inr x) # rs) =
     (case collect rs of
        None \<Rightarrow> None
      | Some (Inl e) \<Rightarrow> Some (Inl e)
      | Some (Inr xs) \<Rightarrow> Some (Inr (x # xs)))"

fun add_children :: "nat \<Rightarrow> digraph \<Rightarrow> string \<Rightarrow> (error + tree list) option" where
  "add_children 0 g n = None"
| "add_children (Suc fuel) g n =
     collect (map (\<lambda>child.
        case node_attrs g child of
          None \<Rightarrow> Some (Inl (KeyError child))
        | Some a \<Rightarrow>
            (case add_children fuel g child of
               None \<Rightarrow> None
             | Some (Inl e) \<Rightarrow> Some (Inl e)
             | Some (Inr c) \<Rightarrow> Some (Inr (Tree a child (if c = [] then None else Some c)))))
        (successors g n))"

definition tree_data :: "digraph \<Rightarrow> string \<Rightarrow> (error + tree) option" where
  "tree_data g rootp =
     (if length (nodes g) \<noteq> length (edges g) + 1 then Some (Inl (TypeError ''G is not a tree.''))
      else if \<not> is_weakly_connected g then Some (Inl (TypeError ''G is not weakly connected.''))
      else
        (case add_children (length (nodes g)) g rootp of
           None \<Rightarrow> None
         | Some (Inl e) \<Rightarrow> Some (Inl e)
         | Some (Inr cs) \<Rightarrow>
             (case node_attrs g rootp of
                None \<Rightarrow> Some (Inl (KeyError rootp))
              | Some a \<Rightarrow> Some (Inr (Tree a rootp (Some cs))))))"




subsection \<open>build_tree_json\<close>

text \<open>The body of the loop over subdirectories (lines 140 to 150).\<close>

definition add_subdir ::
  "(nat \<Rightarrow> real) \<Rightarrow> (string \<Rightarrow> string) \<Rightarrow> real option \<Rightarrow> string \<Rightarrow> string \<Rightarrow> entry \<Rightarrow>
   digraph \<times> world \<Rightarrow> digraph \<times> world"
where
  "add_subdir clk abspath deadline subdir parent_path d gw =
     (case gw of (g, w) \<Rightarrow>
        let child_path = abspath (join subdir (ename d));
            (g1, w1) =
              (if \<not> has_node g child_path then
                 (case get_folder_size clk child_path d deadline w of
                    (child_size, w') \<Rightarrow>
                      (add_node g child_path (folder_attrs (ename d) (size_val child_size)), w'))
               else (g, w))
        in (add_edge g1 parent_path child_path, w1))"

text \<open>The body of the loop over files (lines 153 to 168).\<close>

definition add_file ::
  "(string \<Rightarrow> string) \<Rightarrow> string \<Rightarrow> string \<Rightarrow> entry \<Rightarrow> digraph \<times> world \<Rightarrow> digraph \<times> world"
where
  "add_file abspath subdir parent_path f gw =
     (case gw of (g, w) \<Rightarrow>
        let full_path = abspath (join subdir (ename f));
            (size, w1) =
              (case getsize_later f of
                 Some n \<Rightarrow> (PyInt n, w)
               | None \<Rightarrow> (PyNone, print (warning full_path) w));
            g1 = (if \<not> has_node g full_path
                  then add_node g full_path (file_attrs (ename f) size) else g)
        in (add_edge g1 parent_path full_path, w1))"

text \<open>The body of the loop over \<^verbatim>\<open>os.walk(dir_of_interest)\<close> (lines 127 to 168); the
  pruning of line 125 is the \<open>keep\<close> of \<open>os_walk\<close>.\<close>

definition visit ::
  "(nat \<Rightarrow> real) \<Rightarrow> (string \<Rightarrow> string) \<Rightarrow> real option \<Rightarrow> walk_item \<Rightarrow>
   digraph \<times> world \<Rightarrow> digraph \<times> world"
where
  "visit clk abspath deadline item gw =
     (case item of (subdir, e, dirs, files) \<Rightarrow>
      case gw of (g, w) \<Rightarrow>
        let parent_path = abspath subdir;
            parent_name = (if basename parent_path = [] then parent_path
                           else basename parent_path);
            (g1, w1) =
              (if \<not> has_node g parent_path then
                 (case get_folder_size clk parent_path e deadline w of
                    (parent_size, w') \<Rightarrow>
                      (add_node g parent_path (folder_attrs parent_name (size_val parent_size)), w'))
               else (g, w));
            gw2 = fold (add_subdir clk abspath deadline subdir parent_path) dirs (g1, w1)
        in fold (add_file abspath subdir parent_path) files gw2)"

text \<open>
  \<open>build_tree_json clk abspath fs dir_of_interest ignore max_seconds\<close>, where \<open>fs\<close> is
  what the path \<open>dir_of_interest\<close> denotes.  \<^verbatim>\<open>os.path.abspath\<close> is the parameter
  \<open>abspath\<close>.
\<close>

definition set_deadline :: "(nat \<Rightarrow> real) \<Rightarrow> real option \<Rightarrow> world \<Rightarrow> real option \<times> world" where
  "set_deadline clk max_seconds w =
     (case max_seconds of
        None \<Rightarrow> (None, w)
      | Some m \<Rightarrow>
          (if m > 0 then (Some (clk (ticks w) + m), w\<lparr>ticks := Suc (ticks w)\<rparr>)
           else (None, w)))"

definition build_graph ::
  "(nat \<Rightarrow> real) \<Rightarrow> (string \<Rightarrow> string) \<Rightarrow> entry option \<Rightarrow> string \<Rightarrow> ignore_arg \<Rightarrow>
   real option \<Rightarrow> world \<Rightarrow> digraph \<times> world"
where
  "build_graph clk abspath fs dir_of_interest ignore max_seconds w =
     (let w0 = print ''[INFO] Building tree-style JSON structure. This may take a while for large directories...'' w;
          dir = abspath dir_of_interest;
          ignore_set = normalize_ignores ignore;
          (deadline, w1) = set_deadline clk max_seconds w0;
          (g, w2) = fold (visit clk abspath deadline)
                      (walk_top (\<lambda>d. d \<notin> ignore_set) dir fs) (empty_graph, w1);
          root_id = abspath dir;
          g' = (if \<not> has_node g root_id
                then add_node g root_id
                       [(''type'', PyStr ''folder''), (''name'', PyStr (basename root_id))]
                else g)
      in (g', w2))"

definition build_tree_json ::
  "(nat \<Rightarrow> real) \<Rightarrow> (string \<Rightarrow> string) \<Rightarrow> entry option \<Rightarrow> string \<Rightarrow> ignore_arg \<Rightarrow>
   real option \<Rightarrow> world \<Rightarrow> (error + tree) option \<times> world"
where
  "build_tree_json clk abspath fs dir_of_interest ignore max_seconds w =
     (case build_graph clk abspath fs dir_of_interest ignore max_seconds w of
        (g, w') \<Rightarrow> (tree_data g (abspath (abspath dir_of_interest)), w'))"


subsection \<open>write_tree_json\<close>



subsection \<open>build_dod\<close>








section \<open>cli.py\<close>


section \<open>Notions used to state the properties\<close>

text \<open>What one file adds to a folder size: its size when it is a regular file whose size
  can be read, nothing otherwise.\<close>

definition file_bytes :: "entry \<Rightarrow> nat" where
  "file_bytes f = (if isfile f then (case getsize f of Some k \<Rightarrow> k | None \<Rightarrow> 0) else 0)"

text \<open>The complete sum for a directory: over all files beneath it that can be reached by
  listing directories.\<close>

fun total_size :: "entry \<Rightarrow> nat" where
  "total_size (File n f s l) = file_bytes (File n f s l)"
| "total_size (Dir n ok es) = (if ok then sum_list (map total_size es) else 0)"

text \<open>The units of work of one folder-size computation: each directory entered and each
  file examined.\<close>

fun work_units :: "entry \<Rightarrow> nat" where
  "work_units (File n f s l) = 0"
| "work_units (Dir n ok es) =
     (if ok then 1 + length [f \<leftarrow> es. \<not> is_dir f] + sum_list (map work_units [d \<leftarrow> es. is_dir d])
      else 0)"

definition walk_bytes :: "walk_item list \<Rightarrow> nat" where
  "walk_bytes items = sum_list (map (\<lambda>(p, e, ds, fs). sum_list (map file_bytes fs)) items)"

definition walk_units :: "walk_item list \<Rightarrow> nat" where
  "walk_units items = sum_list (map (\<lambda>(p, e, ds, fs). Suc (length fs)) items)"

text \<open>Reading the result tree.\<close>

definition tree_size :: "tree \<Rightarrow> pyval option" where
  "tree_size t = map_of (tattrs t) ''size_bytes''"

definition tree_type :: "tree \<Rightarrow> pyval option" where
  "tree_type t = map_of (tattrs t) ''type''"

definition kids :: "tree \<Rightarrow> tree list" where
  "kids t = (case tchildren t of None \<Rightarrow> [] | Some ts \<Rightarrow> ts)"

definition root_size_is :: "(error + tree) option \<Rightarrow> nat \<Rightarrow> bool" where
  "root_size_is r n = (case r of Some (Inr t) \<Rightarrow> tree_size t = Some (PyInt n) | _ \<Rightarrow> False)"

text \<open>The example of the specification: directory \<open>A\<close> with the file \<open>a.txt\<close> of 4 bytes
  and the subdirectory \<open>B\<close> with the file \<open>b.txt\<close> of 6 bytes, at the path \<open>/A\<close>.
  \<open>example_abspath\<close> is \<^verbatim>\<open>os.path.abspath\<close> on normalised paths when the working
  directory is \<open>/home/user\<close>.\<close>

definition example_A :: entry where
  "example_A =
     Dir ''A'' True [File ''a.txt'' True (Some 4) (Some 4), Dir ''B'' True [File ''b.txt'' True (Some 6) (Some 6)]]"

definition world0 :: world where
  "world0 = \<lparr>ticks = 0, stdout = []\<rparr>"

definition second_clock :: "nat \<Rightarrow> real" where
  "second_clock k = real k"

section \<open>Notions used to relate the graph and the tree to the walk\<close>

text \<open>
  The identifier that the loop body gives to the entry \<open>x\<close> of the directory \<open>subdir\<close>
  (lines 141 and 154), the identifiers and edges that one yielded triple adds, and those
  of a whole walk, in the order in which the program adds them.
\<close>

definition child_id :: "(string \<Rightarrow> string) \<Rightarrow> string \<Rightarrow> entry \<Rightarrow> string" where
  "child_id abspath subdir x = abspath (join subdir (ename x))"

definition child_ids :: "(string \<Rightarrow> string) \<Rightarrow> walk_item \<Rightarrow> string list" where
  "child_ids abspath item =
     (case item of (subdir, e, dirs, files) \<Rightarrow> map (child_id abspath subdir) (dirs @ files))"

definition walk_ids :: "(string \<Rightarrow> string) \<Rightarrow> walk_item list \<Rightarrow> string list" where
  "walk_ids abspath items = concat (map (child_ids abspath) items)"

definition item_edges :: "(string \<Rightarrow> string) \<Rightarrow> walk_item \<Rightarrow> (string \<times> string) list" where
  "item_edges abspath item = map (\<lambda>c. (abspath (fst item), c)) (child_ids abspath item)"

definition walk_edges :: "(string \<Rightarrow> string) \<Rightarrow> walk_item list \<Rightarrow> (string \<times> string) list" where
  "walk_edges abspath items = concat (map (item_edges abspath) items)"

text \<open>
  What \<^verbatim>\<open>os.walk\<close> guarantees of a triple: the entries of \<^verbatim>\<open>dirnames\<close> are directories and
  those of \<^verbatim>\<open>filenames\<close> are not.  \<open>overrun clk deadline a b\<close> says that one of the
  readings of the clock numbered from \<open>a\<close> up to, but excluding, \<open>b\<close> exceeds the deadline.
  \<open>dir_node\<close> and \<open>file_node\<close> describe the node that lines 144 and 162 add for a
  subdirectory and for a file: a folder carries the complete sum of \<open>get_folder_size\<close>
  or, when \<open>late\<close> holds, possibly \<open>None\<close>; a file carries what line 156 read.
  \<open>item_nodes\<close> and \<open>walk_nodes\<close> say this of the nodes added for a triple and for a
  walk.  \<open>warned\<close> says that the warning of line 158 is on the console for each file of
  the triple whose size cannot be read there.
\<close>

definition overrun :: "(nat \<Rightarrow> real) \<Rightarrow> real option \<Rightarrow> nat \<Rightarrow> nat \<Rightarrow> bool" where
  "overrun clk deadline a b =
     (case deadline of None \<Rightarrow> False | Some d \<Rightarrow> \<exists>k\<in>{a..<b}. d < clk k)"

definition item_ok :: "walk_item \<Rightarrow> bool" where
  "item_ok item = (case item of (subdir, e, dirs, files) \<Rightarrow> list_all is_dir dirs \<and> list_all (\<lambda>f. \<not> is_dir f) files)"

definition dir_node :: "(string \<Rightarrow> string) \<Rightarrow> bool \<Rightarrow> string \<Rightarrow> entry \<Rightarrow> string \<times> attrs \<Rightarrow> bool" where
  "dir_node abspath late subdir d na \<longleftrightarrow>
     fst na = child_id abspath subdir d \<and>
     (snd na = folder_attrs (ename d) (PyInt (total_size d))
      \<or> late \<and> snd na = folder_attrs (ename d) PyNone)"

definition file_node :: "(string \<Rightarrow> string) \<Rightarrow> string \<Rightarrow> entry \<Rightarrow> string \<times> attrs" where
  "file_node abspath subdir f = (child_id abspath subdir f, file_attrs (ename f) (size_val (getsize_later f)))"

definition targets_in :: "digraph \<Rightarrow> bool" where
  "targets_in g \<longleftrightarrow> set (map snd (edges g)) \<subseteq> set (map fst (nodes g))"

definition item_nodes ::
  "(string \<Rightarrow> string) \<Rightarrow> bool \<Rightarrow> walk_item \<Rightarrow> (string \<times> attrs) list \<Rightarrow> bool" where
  "item_nodes abspath late item new =
     (case item of (subdir, e, dirs, files) \<Rightarrow>
        \<exists>nd. new = nd @ map (file_node abspath subdir) files
             \<and> list_all2 (dir_node abspath late subdir) dirs nd)"

definition walk_nodes ::
  "(string \<Rightarrow> string) \<Rightarrow> bool \<Rightarrow> walk_item list \<Rightarrow> (string \<times> attrs) list \<Rightarrow> bool" where
  "walk_nodes abspath late items new =
     (\<exists>parts. new = concat parts \<and> list_all2 (item_nodes abspath late) items parts)"

definition warned :: "(string \<Rightarrow> string) \<Rightarrow> walk_item \<Rightarrow> world \<Rightarrow> bool" where
  "warned abspath item w =
     (case item of (subdir, e, dirs, files) \<Rightarrow>
        \<forall>f\<in>set files. getsize_later f = None \<longrightarrow> warning (child_id abspath subdir f) \<in> set (stdout w))"

text \<open>
  \<open>parents_ok abspath S items\<close>: the directory of each triple is in \<open>S\<close> or is a child
  of an earlier triple, as holds in a top-down walk.  \<open>srcs\<close> are the identifiers of the
  directories yielded, and \<open>leaves\<close> those of the entries reached but not yielded (files,
  and directories that cannot be listed).
\<close>

fun parents_ok :: "(string \<Rightarrow> string) \<Rightarrow> string set \<Rightarrow> walk_item list \<Rightarrow> bool" where
  "parents_ok abspath S [] = True"
| "parents_ok abspath S (item # items) =
     (abspath (fst item) \<in> S \<and> parents_ok abspath (S \<union> set (child_ids abspath item)) items)"

definition srcs :: "(string \<Rightarrow> string) \<Rightarrow> walk_item list \<Rightarrow> string list" where
  "srcs abspath items = map (\<lambda>item. abspath (fst item)) items"

fun leaves :: "(string \<Rightarrow> string) \<Rightarrow> (string \<Rightarrow> bool) \<Rightarrow> string \<Rightarrow> entry \<Rightarrow> string list" where
  "leaves abspath keep dirpath (File n f s l) = [abspath dirpath]"
| "leaves abspath keep dirpath (Dir n ok es) =
     (if ok then
        concat (map (\<lambda>x. leaves abspath keep (join dirpath (ename x)) x)
                  ([d \<leftarrow> es. is_dir d \<and> keep (ename d)] @ [f \<leftarrow> es. \<not> is_dir f]))
      else [abspath dirpath])"

text \<open>
  The children that \<open>tree_data\<close> returns for the directory \<open>e\<close> at \<open>dirpath\<close>, written by
  recursion on the file system: one tree for each kept subdirectory and each file, in
  this order, with the attributes \<open>att\<close> assigns to its identifier.  \<open>top_subtrees\<close> is the
  same for a root path that may denote nothing.
\<close>

definition attrs_of :: "digraph \<Rightarrow> string \<Rightarrow> attrs" where
  "attrs_of g n = (case node_attrs g n of Some a \<Rightarrow> a | None \<Rightarrow> [])"

fun subtrees ::
  "(string \<Rightarrow> string) \<Rightarrow> (string \<Rightarrow> bool) \<Rightarrow> (string \<Rightarrow> attrs) \<Rightarrow> string \<Rightarrow> entry \<Rightarrow> tree list"
where
  "subtrees abspath keep att dirpath (File n f s l) = []"
| "subtrees abspath keep att dirpath (Dir n ok es) =
     (if ok then
        map (\<lambda>x. Tree (att (child_id abspath dirpath x)) (child_id abspath dirpath x)
                   (if subtrees abspath keep att (join dirpath (ename x)) x = [] then None
                    else Some (subtrees abspath keep att (join dirpath (ename x)) x)))
          ([d \<leftarrow> es. is_dir d \<and> keep (ename d)] @ [f \<leftarrow> es. \<not> is_dir f])
      else [])"

text \<open>
  The triples of the main walk of a build, and the assumption about the environment
  under which whole builds are studied: the root and the entries that the walk reaches
  have pairwise distinct identifiers.  \<open>build_deadline\<close> is the deadline of the build
  (\<open>None\<close>: no deadline), and \<open>root_attrs_ok\<close> describes the attributes of the root node:
  those of line 132 when the root is a directory that can be listed, those of the
  defensive default of line 173 otherwise.
\<close>

definition build_items :: "(string \<Rightarrow> string) \<Rightarrow> ignore_arg \<Rightarrow> string \<Rightarrow> entry option \<Rightarrow> walk_item list" where
  "build_items abspath ignore dir_of_interest fs =
     walk_top (\<lambda>d. d \<notin> normalize_ignores ignore) (abspath dir_of_interest) fs"

definition ids_distinct :: "(string \<Rightarrow> string) \<Rightarrow> ignore_arg \<Rightarrow> string \<Rightarrow> entry option \<Rightarrow> bool" where
  "ids_distinct abspath ignore dir_of_interest fs =
     distinct (abspath (abspath dir_of_interest)
               # walk_ids abspath (build_items abspath ignore dir_of_interest fs))"

definition build_deadline :: "(nat \<Rightarrow> real) \<Rightarrow> real option \<Rightarrow> world \<Rightarrow> real option" where
  "build_deadline clk max_seconds w =
     fst (set_deadline clk max_seconds
            (print ''[INFO] Building tree-style JSON structure. This may take a while for large directories...'' w))"

definition root_name :: "string \<Rightarrow> string" where
  "root_name r = (if basename r = [] then r else basename r)"

definition root_attrs_ok :: "bool \<Rightarrow> string \<Rightarrow> entry option \<Rightarrow> attrs \<Rightarrow> bool" where
  "root_attrs_ok late r fs ra =
     (case fs of
        Some (Dir n True es) \<Rightarrow>
          ra = folder_attrs (root_name r) (PyInt (total_size (Dir n True es)))
          \<or> late \<and> ra = folder_attrs (root_name r) PyNone
      | _ \<Rightarrow> ra = [(''type'', PyStr ''folder''), (''name'', PyStr (basename r))])"

definition top_subtrees ::
  "(string \<Rightarrow> string) \<Rightarrow> (string \<Rightarrow> bool) \<Rightarrow> (string \<Rightarrow> attrs) \<Rightarrow> string \<Rightarrow> entry option \<Rightarrow> tree list"
where
  "top_subtrees abspath keep att dirpath fs =
     (case fs of None \<Rightarrow> [] | Some e \<Rightarrow> subtrees abspath keep att dirpath e)"

text \<open>
  The nodes of a tree in preorder, and the entries \<open>located\<close> below a directory in the
  same order, each with its identifier.  \<open>entry_attrs_ok\<close> describes the attributes of
  the node of an entry.  \<open>parentless\<close> lists the nodes of a tree that are the child of no
  node.
\<close>

fun tree_nodes :: "tree \<Rightarrow> tree list" where
  "tree_nodes (Tree a i None) = [Tree a i None]"
| "tree_nodes (Tree a i (Some ts)) = Tree a i (Some ts) # concat (map tree_nodes ts)"

fun located ::
  "(string \<Rightarrow> string) \<Rightarrow> (string \<Rightarrow> bool) \<Rightarrow> string \<Rightarrow> entry \<Rightarrow> (string \<times> entry) list" where
  "located abspath keep dirpath (File n f s l) = []"
| "located abspath keep dirpath (Dir n ok es) =
     (if ok then
        concat (map (\<lambda>x. (child_id abspath dirpath x, x) # located abspath keep (join dirpath (ename x)) x)
                  ([d \<leftarrow> es. is_dir d \<and> keep (ename d)] @ [f \<leftarrow> es. \<not> is_dir f]))
      else [])"

definition entry_attrs_ok :: "bool \<Rightarrow> entry \<Rightarrow> attrs \<Rightarrow> bool" where
  "entry_attrs_ok late x a =
     (if is_dir x
      then a = folder_attrs (ename x) (PyInt (total_size x))
           \<or> late \<and> a = folder_attrs (ename x) PyNone
      else a = file_attrs (ename x) (size_val (getsize_later x)))"

definition item_children :: "walk_item \<Rightarrow> entry list" where
  "item_children item = fst (snd (snd item)) @ snd (snd (snd item))"

definition keep_of :: "ignore_arg \<Rightarrow> string \<Rightarrow> bool" where
  "keep_of ignore d = (d \<notin> normalize_ignores ignore)"

definition parentless :: "tree \<Rightarrow> tree list" where
  "parentless t =
     [n \<leftarrow> tree_nodes t. \<not> list_ex (\<lambda>m. tid n \<in> set (map tid (kids m))) (tree_nodes t)]"

definition example_abspath :: "string \<Rightarrow> string" where
  "example_abspath p = (if p \<noteq> [] \<and> hd p = CHR ''/'' then p else ''/home/user/'' @ p)"

















text \<open>
  For ignore pruning: the segments of a path, the statement that no node has a path
  segment in \<open>I\<close>, and the statement that holds instead.  \<open>pruned_ok abspath I dirpath t\<close>
  says of the nodes below \<open>t\<close>, where \<open>dirpath\<close> is the path of \<open>t\<close>: the identifier of
  each is the canonical form of its parent's path joined with its name, and each folder
  node has a name outside \<open>I\<close>.  \<open>example_bin\<close> is a directory holding a regular file
  called \<open>bin\<close>.
\<close>

fun split_path :: "string \<Rightarrow> string list" where
  "split_path [] = [[]]"
| "split_path (c # cs) =
     (if c = CHR ''/'' then [] # split_path cs
      else (case split_path cs of [] \<Rightarrow> [[c]] | s # ss \<Rightarrow> (c # s) # ss))"

definition segments :: "string \<Rightarrow> string list" where
  "segments p = [s \<leftarrow> split_path p. s \<noteq> []]"

definition no_ignored_segment :: "string set \<Rightarrow> tree \<Rightarrow> bool" where
  "no_ignored_segment I t = list_all (\<lambda>n. list_all (\<lambda>s. s \<notin> I) (segments (tid n))) (tree_nodes t)"

fun pruned_ok :: "(string \<Rightarrow> string) \<Rightarrow> string set \<Rightarrow> string \<Rightarrow> tree \<Rightarrow> bool" where
  "pruned_ok abspath I dirpath (Tree a i None) = True"
| "pruned_ok abspath I dirpath (Tree a i (Some ts)) =
     list_all (\<lambda>c. case map_of (tattrs c) ''name'' of
                     Some (PyStr nm) \<Rightarrow>
                       tid c = abspath (join dirpath nm)
                       \<and> (tree_type c = Some (PyStr ''folder'') \<longrightarrow> nm \<notin> I)
                       \<and> pruned_ok abspath I (join dirpath nm) c
                   | _ \<Rightarrow> False) ts"

definition example_bin :: entry where
  "example_bin = Dir ''A'' True [File ''bin'' True (Some 1) (Some 1)]"

text \<open>
  For two builds of one file system.  Two attribute dictionaries agree when they are
  equal, or when both belong to folders, differ in \<open>size_bytes\<close> only, and one of the two
  sizes is \<open>None\<close>.  Two trees are the same modulo the deadline when they have the same
  nodes with the same children in the same order and the attributes agree node by node.
  The time budget is disabled when \<open>max_seconds\<close> is \<open>None\<close> or not positive.
\<close>

definition attrs_agree :: "attrs \<Rightarrow> attrs \<Rightarrow> bool" where
  "attrs_agree a b =
     (a = b \<or>
      (map_of a ''type'' = Some (PyStr ''folder'') \<and> map_of b ''type'' = Some (PyStr ''folder'')
       \<and> (map_of a ''size_bytes'' = Some PyNone \<or> map_of b ''size_bytes'' = Some PyNone)
       \<and> dict_set a ''size_bytes'' PyNone = dict_set b ''size_bytes'' PyNone))"

fun same_modulo_deadline :: "tree \<Rightarrow> tree \<Rightarrow> bool" where
  "same_modulo_deadline (Tree a i cs) (Tree b j ds) =
     (i = j \<and> attrs_agree a b \<and>
      (case cs of
         None \<Rightarrow> ds = None
       | Some ts \<Rightarrow>
           (case ds of None \<Rightarrow> False | Some us \<Rightarrow> list_all2 same_modulo_deadline ts us)))"

definition budget_disabled :: "real option \<Rightarrow> bool" where
  "budget_disabled max_seconds = (case max_seconds of None \<Rightarrow> True | Some m \<Rightarrow> \<not> m > 0)"




text \<open>For the deadline: a directory \<open>A\<close> holding \<open>locked\<close>, which cannot be listed, and the
  empty directory \<open>sub\<close>.\<close>

definition example_locked :: entry where
  "example_locked = Dir ''A'' True [Dir ''locked'' False [], Dir ''sub'' True []]"

text \<open>
  For the assumption \<open>ids_distinct\<close>.  The names that a directory listing can hold; a
  file system in which every listing holds such names, each once; and what is used of
  \<^verbatim>\<open>os.path.abspath\<close>: its result is not empty, it is idempotent, and it leaves a path
  unchanged that extends one of its own results by a name.  \<open>paths_below\<close> are the paths
  of the entries that the walk reaches, \<open>sep p\<close> is \<open>p\<close> with the separator that \<open>join\<close>
  puts behind it, and \<open>first_seg p s\<close> is the first segment of \<open>s\<close> behind \<open>p\<close>.
\<close>

definition valid_name :: "string \<Rightarrow> bool" where
  "valid_name n = (n \<noteq> [] \<and> CHR ''/'' \<notin> set n \<and> n \<noteq> ''.'' \<and> n \<noteq> ''..'')"

fun wf_entry :: "entry \<Rightarrow> bool" where
  "wf_entry (File n f s l) = True"
| "wf_entry (Dir n ok es) =
     (list_all (\<lambda>x. valid_name (ename x)) es \<and> distinct (map ename es) \<and> list_all wf_entry es)"

definition abspath_stable :: "(string \<Rightarrow> string) \<Rightarrow> bool" where
  "abspath_stable abspath =
     ((\<forall>p. abspath p \<noteq> [] \<and> abspath (abspath p) = abspath p) \<and>
      (\<forall>q n. abspath q = q \<and> valid_name n \<longrightarrow> abspath (join q n) = join q n))"

fun paths_below :: "(string \<Rightarrow> bool) \<Rightarrow> string \<Rightarrow> entry \<Rightarrow> string list" where
  "paths_below keep dirpath (File n f s l) = []"
| "paths_below keep dirpath (Dir n ok es) =
     (if ok then
        concat (map (\<lambda>x. join dirpath (ename x) # paths_below keep (join dirpath (ename x)) x)
                  ([d \<leftarrow> es. is_dir d \<and> keep (ename d)] @ [f \<leftarrow> es. \<not> is_dir f]))
      else [])"

definition sep :: "string \<Rightarrow> string" where
  "sep p = (if last p = CHR ''/'' then p else p @ ''/'')"

definition first_seg :: "string \<Rightarrow> string \<Rightarrow> string" where
  "first_seg p s = takeWhile (\<lambda>c. c \<noteq> CHR ''/'') (drop (length (sep p)) s)"

section \<open>The folder size is the complete sum or absent\<close>

lemma size_files_no_deadline:
  "fst (size_files clk None r fs acc w) = Some (acc + sum_list (map file_bytes fs))
   \<and> ticks (snd (size_files clk None r fs acc w)) = ticks w"
  by (induction fs arbitrary: acc w)
     (auto simp: expired_def print_def file_bytes_def split: option.splits)

lemma all_less_Suc_shift: "(\<forall>k<Suc n. P k) \<longleftrightarrow> P 0 \<and> (\<forall>k<n. P (Suc k))"
  by (metis less_Suc_eq_0_disj Suc_less_eq zero_less_Suc) 

lemma size_files_step:
  assumes "\<not> d < clk (ticks w)"
  shows "\<exists>w2. size_files clk (Some d) r (f # fs) acc w = size_files clk (Some d) r fs (acc + file_bytes f) w2
            \<and> ticks w2 = Suc (ticks w)"
proof (cases "isfile f")
  case True
  show ?thesis
  proof (cases "getsize f")
    case None
    with True assms show ?thesis
      by (intro exI[of _ "print (warning (join r (ename f))) (w\<lparr>ticks := Suc (ticks w)\<rparr>)"])
         (simp add: expired_def file_bytes_def print_def)
  next
    case (Some n)
    with True assms show ?thesis
      by (intro exI[of _ "w\<lparr>ticks := Suc (ticks w)\<rparr>"]) (simp add: expired_def file_bytes_def)
  qed
next
  case False
  with assms show ?thesis
    by (intro exI[of _ "w\<lparr>ticks := Suc (ticks w)\<rparr>"]) (simp add: expired_def file_bytes_def)
qed

lemma size_files_deadline:
  "size_files clk (Some d) r fs acc w = (res, w') \<Longrightarrow>
     (if \<forall>k<length fs. clk (ticks w + k) \<le> d
      then res = Some (acc + sum_list (map file_bytes fs)) \<and> ticks w' = ticks w + length fs
      else res = None \<and> ticks w < ticks w' \<and> ticks w' \<le> ticks w + length fs \<and> d < clk (ticks w' - 1))"
proof (induction fs arbitrary: acc w)
  case Nil
  then show ?case by simp
next
  case (Cons f fs)
  show ?case
  proof (cases "clk (ticks w) > d")
    case True
    with Cons.prems show ?thesis
      by (auto simp: expired_def)
  next
    case False
    from size_files_step[where d=d and clk=clk and w=w, OF False, of r f fs acc] obtain w2 where
      step: "size_files clk (Some d) r (f # fs) acc w = size_files clk (Some d) r fs (acc + file_bytes f) w2"
      and t: "ticks w2 = Suc (ticks w)" by blast
    from Cons.prems step have "size_files clk (Some d) r fs (acc + file_bytes f) w2 = (res, w')" by simp
    from Cons.IH[OF this] t False show ?thesis
      by (auto simp add: all_less_Suc_shift add.assoc split: if_splits)
  qed
qed

lemma size_walk_no_deadline:
  "fst (size_walk clk None items acc w) = Some (acc + walk_bytes items)
   \<and> ticks (snd (size_walk clk None items acc w)) = ticks w"
proof (induction items arbitrary: acc w)
  case Nil
  show ?case by (simp add: walk_bytes_def)
next
  case (Cons it items)
  obtain p e ds fs where it: "it = (p, e, ds, fs)" by (cases it) auto
  obtain w2 where sf: "size_files clk None p fs acc w = (Some (acc + sum_list (map file_bytes fs)), w2)"
    and t: "ticks w2 = ticks w"
    using size_files_no_deadline[of clk p fs acc w] by (cases "size_files clk None p fs acc w") auto
  have "size_walk clk None (it # items) acc w = size_walk clk None items (acc + sum_list (map file_bytes fs)) w2"
    using sf by (simp add: it expired_def)
  with Cons.IH[of "acc + sum_list (map file_bytes fs)" w2] t show ?case
    by (simp add: it walk_bytes_def add.assoc)
qed

lemma all_less_add_split: "(\<forall>k<m + (n::nat). P k) \<longleftrightarrow> (\<forall>k<m. P k) \<and> (\<forall>k<n. P (m + k))"
proof
  assume a: "\<forall>k<m + n. P k"
  show "(\<forall>k<m. P k) \<and> (\<forall>k<n. P (m + k))"
  proof (intro conjI allI impI)
    fix k assume "k < m"
    then have "k < m + n" by simp
    with a show "P k" by blast
  next
    fix k assume "k < n"
    then have "m + k < m + n" by simp
    with a show "P (m + k)" by blast
  qed
next
  assume a: "(\<forall>k<m. P k) \<and> (\<forall>k<n. P (m + k))"
  show "\<forall>k<m + n. P k"
  proof (intro allI impI)
    fix k assume "k < m + n"
    show "P k"
    proof (cases "k < m")
      case True with a show ?thesis by simp
    next
      case False
      then have "k = m + (k - m)" "k - m < n" using \<open>k < m + n\<close> by auto
      with a show ?thesis by metis
    qed
  qed
qed

lemma size_walk_deadline:
  "size_walk clk (Some d) items acc w = (res, w') \<Longrightarrow>
     (if \<forall>k<walk_units items. clk (ticks w + k) \<le> d
      then res = Some (acc + walk_bytes items) \<and> ticks w' = ticks w + walk_units items
      else res = None \<and> ticks w < ticks w' \<and> ticks w' \<le> ticks w + walk_units items \<and> d < clk (ticks w' - 1))"
proof (induction items arbitrary: acc w)
  case Nil
  then show ?case by (simp add: walk_bytes_def walk_units_def)
next
  case (Cons it items)
  obtain p e ds fs where it: "it = (p, e, ds, fs)" by (cases it) auto
  have wu: "walk_units (it # items) = Suc (length fs) + walk_units items"
    and wb: "walk_bytes (it # items) = sum_list (map file_bytes fs) + walk_bytes items"
    by (simp_all add: it walk_units_def walk_bytes_def)
  define C where "C \<longleftrightarrow> (\<forall>k<length fs. clk (Suc (ticks w) + k) \<le> d)"
  define D where "D \<longleftrightarrow> (\<forall>k<walk_units items. clk (Suc (ticks w) + length fs + k) \<le> d)"
  have split: "(\<forall>k<walk_units (it # items). clk (ticks w + k) \<le> d)
                 \<longleftrightarrow> clk (ticks w) \<le> d \<and> C \<and> D"
    unfolding wu C_def D_def
    by (simp add: all_less_Suc_shift all_less_add_split add.assoc)
  show ?case
  proof (cases "clk (ticks w) > d")
    case True
    have "res = None" "w' = w\<lparr>ticks := Suc (ticks w)\<rparr>"
      using Cons.prems True by (simp_all add: expired_def it)
    then show ?thesis using True unfolding split by (simp add: wu)
  next
    case False
    let ?w1 = "w\<lparr>ticks := Suc (ticks w)\<rparr>"
    obtain r1 w2 where sf: "size_files clk (Some d) p fs acc ?w1 = (r1, w2)"
      by (cases "size_files clk (Some d) p fs acc ?w1") auto
    have F: "if C then r1 = Some (acc + sum_list (map file_bytes fs)) \<and> ticks w2 = Suc (ticks w) + length fs
             else r1 = None \<and> Suc (ticks w) < ticks w2 \<and> ticks w2 \<le> Suc (ticks w) + length fs
                  \<and> d < clk (ticks w2 - 1)"
      using size_files_deadline[OF sf] unfolding C_def by (auto split: if_splits)
    show ?thesis
    proof (cases C)
      case all: True
      with F have r1: "r1 = Some (acc + sum_list (map file_bytes fs))"
        and t2: "ticks w2 = Suc (ticks w) + length fs" by simp_all
      have "size_walk clk (Some d) items (acc + sum_list (map file_bytes fs)) w2 = (res, w')"
        using Cons.prems False sf r1 by (simp add: it expired_def)
      from Cons.IH[OF this] have
        "if D then res = Some (acc + sum_list (map file_bytes fs) + walk_bytes items)
                   \<and> ticks w' = ticks w2 + walk_units items
         else res = None \<and> ticks w2 < ticks w' \<and> ticks w' \<le> ticks w2 + walk_units items
                   \<and> d < clk (ticks w' - 1)"
        unfolding D_def t2 by (auto split: if_splits)
      with t2 False all show ?thesis
        unfolding split by (cases D) (simp_all add: add.assoc wu wb)
    next
      case nall: False
      with F have r1: "r1 = None" and t2: "Suc (ticks w) < ticks w2"
        "ticks w2 \<le> Suc (ticks w) + length fs" "d < clk (ticks w2 - 1)" by simp_all
      have "res = None" "w' = w2"
        using Cons.prems False sf r1 by (simp_all add: it expired_def)
      with t2 nall False show ?thesis
        unfolding split by (simp add: wu)
    qed
  qed
qed

lemma sum_list_partition:
  "sum_list (map f xs) = sum_list (map f [x \<leftarrow> xs. P x]) + sum_list (map (f::'a \<Rightarrow> nat) [x \<leftarrow> xs. \<not> P x])"
  by (induction xs) auto

lemma walk_bytes_append: "walk_bytes (xs @ ys) = walk_bytes xs + walk_bytes ys"
  by (simp add: walk_bytes_def)

lemma walk_units_append: "walk_units (xs @ ys) = walk_units xs + walk_units ys"
  by (simp add: walk_units_def)

lemma walk_bytes_concat:
  "walk_bytes (concat (map g ds)) = sum_list (map (\<lambda>d. walk_bytes (g d)) ds)"
  by (induction ds) (simp_all add: walk_bytes_append, simp add: walk_bytes_def)

lemma walk_units_concat:
  "walk_units (concat (map g ds)) = sum_list (map (\<lambda>d. walk_units (g d)) ds)"
  by (induction ds) (simp_all add: walk_units_append, simp add: walk_units_def)

lemma total_size_not_dir: "\<not> is_dir f \<Longrightarrow> total_size f = file_bytes f"
  by (cases f) simp_all

lemma walk_bytes_os_walk: "is_dir e \<Longrightarrow> walk_bytes (os_walk (\<lambda>_. True) p e) = total_size e"
proof (induction "\<lambda>_::string. True" p e rule: os_walk.induct)
  case (1 dirpath n f s)
  then show ?case by simp
next
  case (2 dirpath n ok es)
  show ?case
  proof (cases ok)
    case False
    then show ?thesis by (simp add: walk_bytes_def)
  next
    case True
    have dirs: "sum_list (map (\<lambda>d. walk_bytes (os_walk (\<lambda>_. True) (join dirpath (ename d)) d)) [d \<leftarrow> es. is_dir d])
                = sum_list (map total_size [d \<leftarrow> es. is_dir d])"
      using 2 True by (intro arg_cong[where f=sum_list] map_cong) auto
    have files: "sum_list (map file_bytes [f \<leftarrow> es. \<not> is_dir f]) = sum_list (map total_size [f \<leftarrow> es. \<not> is_dir f])"
      by (intro arg_cong[where f=sum_list] map_cong) (auto simp: total_size_not_dir)
    have "walk_bytes (os_walk (\<lambda>_. True) dirpath (Dir n ok es))
            = sum_list (map file_bytes [f \<leftarrow> es. \<not> is_dir f])
              + walk_bytes (concat (map (\<lambda>d. os_walk (\<lambda>_. True) (join dirpath (ename d)) d) [d \<leftarrow> es. is_dir d]))"
      using True by (simp add: walk_bytes_def)
    also have "\<dots> = sum_list (map total_size [f \<leftarrow> es. \<not> is_dir f]) + sum_list (map total_size [d \<leftarrow> es. is_dir d])"
      by (simp only: walk_bytes_concat dirs files)
    also have "\<dots> = total_size (Dir n ok es)"
      using True sum_list_partition[of total_size es is_dir] by simp
    finally show ?thesis .
  qed
qed

lemma walk_units_os_walk: "walk_units (os_walk (\<lambda>_. True) p e) = work_units e"
proof (induction "\<lambda>_::string. True" p e rule: os_walk.induct)
  case (1 dirpath n f s)
  show ?case by (simp add: walk_units_def)
next
  case (2 dirpath n ok es)
  show ?case
  proof (cases ok)
    case False
    then show ?thesis by (simp add: walk_units_def)
  next
    case True
    have dirs: "sum_list (map (\<lambda>d. walk_units (os_walk (\<lambda>_. True) (join dirpath (ename d)) d)) [d \<leftarrow> es. is_dir d])
                = sum_list (map work_units [d \<leftarrow> es. is_dir d])"
      using 2 True by (intro arg_cong[where f=sum_list] map_cong) auto
    have "walk_units (os_walk (\<lambda>_. True) dirpath (Dir n ok es))
            = Suc (length [f \<leftarrow> es. \<not> is_dir f])
              + walk_units (concat (map (\<lambda>d. os_walk (\<lambda>_. True) (join dirpath (ename d)) d) [d \<leftarrow> es. is_dir d]))"
      using True by (simp add: walk_units_def)
    also have "\<dots> = work_units (Dir n ok es)"
      using True by (simp only: walk_units_concat dirs) simp
    finally show ?thesis .
  qed
qed

text \<open>
  Claim C4.  A folder-size computation reads the clock once before each unit of work,
  that is before each directory entered and before each file examined.  Without a
  deadline it returns the complete sum.  With a deadline \<open>d\<close> it returns the complete
  sum when none of these readings exceeds \<open>d\<close>; otherwise it returns \<open>None\<close>, and the
  last reading it made is the one that exceeded \<open>d\<close>.  It never returns a partial sum.
\<close>

theorem get_folder_size_complete_or_absent:
  assumes "is_dir e" and "get_folder_size clk path e deadline w = (res, w')"
  shows "(res = None \<or> res = Some (total_size e)) \<and>
         (case deadline of
            None \<Rightarrow> res = Some (total_size e) \<and> ticks w' = ticks w
          | Some d \<Rightarrow>
              (if \<forall>k<work_units e. clk (ticks w + k) \<le> d
               then res = Some (total_size e) \<and> ticks w' = ticks w + work_units e
               else res = None \<and> ticks w < ticks w' \<and> ticks w' \<le> ticks w + work_units e
                    \<and> d < clk (ticks w' - 1)))"
proof (cases deadline)
  case None
  with assms size_walk_no_deadline[of clk "os_walk (\<lambda>_. True) path e" 0 w]
  show ?thesis
    by (simp add: get_folder_size_def walk_bytes_os_walk)
next
  case (Some d)
  with assms have "size_walk clk (Some d) (os_walk (\<lambda>_. True) path e) 0 w = (res, w')"
    by (simp add: get_folder_size_def)
  from size_walk_deadline[OF this] Some assms(1) show ?thesis
    by (auto simp: walk_bytes_os_walk walk_units_os_walk split: if_splits)
qed

theorem get_folder_size_complete_or_absent_witness:
  "is_dir example_A \<and>
   get_folder_size second_clock ''/A'' example_A (Some 2) world0
     = (None, \<lparr>ticks = 4, stdout = []\<rparr>) \<and>
   \<not> (\<forall>k<work_units example_A. second_clock (ticks world0 + k) \<le> 2) \<and>
   2 < second_clock (ticks \<lparr>ticks = 4, stdout = []\<rparr> - 1)"
proof -
  have d: "is_dir example_A" by (simp add: example_A_def)
  have r: "get_folder_size second_clock ''/A'' example_A (Some 2) world0
             = (None, \<lparr>ticks = 4, stdout = []\<rparr>)"
    by (simp add: example_A_def world0_def second_clock_def get_folder_size_def expired_def)
  from get_folder_size_complete_or_absent[OF d r] d r show ?thesis
    by (simp split: if_splits)
qed

section \<open>The graph built by the walk, and its tree\<close>

lemma add_node_new: "\<not> has_node g n \<Longrightarrow> add_node g n a = g\<lparr>nodes := nodes g @ [(n, a)]\<rparr>"
  by (simp add: add_node_def)

lemma add_edge_known:
  "has_node g u \<Longrightarrow> has_node g v \<Longrightarrow> (u, v) \<notin> set (edges g) \<Longrightarrow>
   add_edge g u v = g\<lparr>edges := edges g @ [(u, v)]\<rparr>"
  by (simp add: add_edge_def)

lemma add_child:
  assumes "has_node g u" "\<not> has_node g v" "targets_in g"
  shows "add_edge (add_node g v a) u v = g\<lparr>nodes := nodes g @ [(v, a)], edges := edges g @ [(u, v)]\<rparr>"
proof -
  have "(u, v) \<notin> set (edges g)"
    using assms(2,3) by (force simp: targets_in_def has_node_def)
  with assms(1,2) show ?thesis
    by (simp add: add_node_new add_edge_def has_node_def)
qed

lemma expired_stdout: "stdout (snd (expired clk dl w)) = stdout w"
  by (simp add: expired_def split: option.splits)

lemma size_files_unfold:
  assumes "expired clk dl w = (False, w1)"
  shows "\<exists>acc' w2. size_files clk dl r (f # fs) acc w = size_files clk dl r fs acc' w2
           \<and> set (stdout w1) \<subseteq> set (stdout w2)"
proof (cases "isfile f")
  case False
  with assms show ?thesis by (intro exI[of _ acc] exI[of _ w1]) simp
next
  case True
  show ?thesis
  proof (cases "getsize f")
    case None
    with True assms show ?thesis
      by (intro exI[of _ acc] exI[of _ "print (warning (join r (ename f))) w1"])
         (auto simp: print_def)
  next
    case (Some n)
    with True assms show ?thesis
      by (intro exI[of _ "acc + n"] exI[of _ w1]) simp
  qed
qed

lemma size_files_stdout: "set (stdout w) \<subseteq> set (stdout (snd (size_files clk dl r fs acc w)))"
proof (induction fs arbitrary: acc w)
  case Nil
  show ?case by simp
next
  case (Cons f fs)
  obtain b w1 where e: "expired clk dl w = (b, w1)" by (cases "expired clk dl w") auto
  have s1: "stdout w1 = stdout w" using expired_stdout[of clk dl w] e by simp
  show ?case
  proof (cases b)
    case True
    with e s1 show ?thesis by simp
  next
    case False
    with e have e': "expired clk dl w = (False, w1)" by simp
    from size_files_unfold[OF e', of r f fs acc] obtain acc' w2 where
      u: "size_files clk dl r (f # fs) acc w = size_files clk dl r fs acc' w2"
      and s2: "set (stdout w1) \<subseteq> set (stdout w2)" by blast
    from Cons.IH[of w2 acc'] s2 s1 show ?thesis unfolding u by auto
  qed
qed

lemma size_walk_stdout: "set (stdout w) \<subseteq> set (stdout (snd (size_walk clk dl items acc w)))"
proof (induction items arbitrary: acc w)
  case Nil
  show ?case by simp
next
  case (Cons it items)
  obtain p e ds fs where it: "it = (p, e, ds, fs)" by (cases it) auto
  obtain b w1 where e: "expired clk dl w = (b, w1)" by (cases "expired clk dl w") auto
  have s1: "stdout w1 = stdout w" using expired_stdout[of clk dl w] e by simp
  show ?case
  proof (cases b)
    case True
    with e s1 it show ?thesis by simp
  next
    case False
    obtain r1 w2 where sf: "size_files clk dl p fs acc w1 = (r1, w2)"
      by (cases "size_files clk dl p fs acc w1") auto
    have s2: "set (stdout w1) \<subseteq> set (stdout w2)"
      using size_files_stdout[of w1 clk dl p fs acc] sf by simp
    show ?thesis
    proof (cases r1)
      case None
      with e False sf s1 s2 it show ?thesis by simp
    next
      case (Some acc')
      have "size_walk clk dl (it # items) acc w = size_walk clk dl items acc' w2"
        using e False sf Some it by simp
      with Cons.IH[of w2 acc'] s1 s2 show ?thesis by auto
    qed
  qed
qed

lemma get_folder_size_stdout:
  "set (stdout w) \<subseteq> set (stdout (snd (get_folder_size clk p e dl w)))"
  by (simp add: get_folder_size_def size_walk_stdout)

lemma overrun_mono:
  "overrun clk dl a b \<Longrightarrow> a' \<le> a \<Longrightarrow> b \<le> b' \<Longrightarrow> overrun clk dl a' b'"
  by (cases dl) (auto simp: overrun_def)

lemma dir_node_mono: "dir_node ap L subdir d na \<Longrightarrow> (L \<Longrightarrow> L') \<Longrightarrow> dir_node ap L' subdir d na"
  by (auto simp: dir_node_def)

lemma item_nodes_mono: "item_nodes ap L it new \<Longrightarrow> (L \<Longrightarrow> L') \<Longrightarrow> item_nodes ap L' it new"
proof -
  assume a: "item_nodes ap L it new" and m: "L \<Longrightarrow> L'"
  obtain subdir e dirs files where it: "it = (subdir, e, dirs, files)" by (cases it) auto
  from a it obtain nd where n: "new = nd @ map (file_node ap subdir) files"
    and l: "list_all2 (dir_node ap L subdir) dirs nd" by (auto simp: item_nodes_def)
  from l have "list_all2 (dir_node ap L' subdir) dirs nd"
    by (rule list_all2_mono) (use m in \<open>auto intro: dir_node_mono\<close>)
  with n it show ?thesis by (auto simp: item_nodes_def)
qed

lemma walk_nodes_mono: "walk_nodes ap L items new \<Longrightarrow> (L \<Longrightarrow> L') \<Longrightarrow> walk_nodes ap L' items new"
proof -
  assume a: "walk_nodes ap L items new" and m: "L \<Longrightarrow> L'"
  from a obtain parts where n: "new = concat parts"
    and l: "list_all2 (item_nodes ap L) items parts" by (auto simp: walk_nodes_def)
  from l have "list_all2 (item_nodes ap L') items parts"
    by (rule list_all2_mono) (use m in \<open>auto intro: item_nodes_mono\<close>)
  with n show ?thesis by (auto simp: walk_nodes_def)
qed

lemma get_folder_size_value:
  assumes "is_dir e" and "get_folder_size clk p e dl w = (r, w')"
  shows "ticks w \<le> ticks w' \<and>
         (r = Some (total_size e) \<or> overrun clk dl (ticks w) (ticks w') \<and> r = None)"
proof (cases dl)
  case None
  with assms size_walk_no_deadline[of clk "os_walk (\<lambda>_. True) p e" 0 w]
  show ?thesis
    by (simp add: get_folder_size_def walk_bytes_os_walk)
next
  case (Some d)
  from assms(2) Some have r: "size_walk clk (Some d) (os_walk (\<lambda>_. True) p e) 0 w = (r, w')"
    by (simp add: get_folder_size_def)
  show ?thesis
  proof (cases "\<forall>k<walk_units (os_walk (\<lambda>_. True) p e). clk (ticks w + k) \<le> d")
    case True
    with size_walk_deadline[OF r] assms(1) show ?thesis
      by (simp add: walk_bytes_os_walk)
  next
    case False
    with size_walk_deadline[OF r]
    have n: "r = None" "ticks w < ticks w'" "d < clk (ticks w' - 1)" by simp_all
    then have "ticks w' - 1 \<in> {ticks w..<ticks w'}" by auto
    with n Some show ?thesis by (auto simp: overrun_def)
  qed
qed

lemma fold_add_subdir:
  assumes "has_node g parent" "targets_in g"
    and "distinct (map (child_id ap subdir) ds)"
    and "set (map (child_id ap subdir) ds) \<inter> set (map fst (nodes g)) = {}"
    and "list_all is_dir ds"
  shows "\<exists>new w'. fold (add_subdir clk ap dl subdir parent) ds (g, w)
                    = (g\<lparr>nodes := nodes g @ new,
                         edges := edges g @ map (\<lambda>d. (parent, child_id ap subdir d)) ds\<rparr>, w')
           \<and> list_all2 (dir_node ap (overrun clk dl (ticks w) (ticks w')) subdir) ds new
           \<and> set (stdout w) \<subseteq> set (stdout w') \<and> ticks w \<le> ticks w'"
  using assms
proof (induction ds arbitrary: g w)
  case Nil
  show ?case by (intro exI[of _ "[]"] exI[of _ w]) simp
next
  case (Cons d ds)
  let ?c = "child_id ap subdir d"
  obtain r w1 where gfs: "get_folder_size clk ?c d dl w = (r, w1)"
    by (cases "get_folder_size clk ?c d dl w") auto
  let ?a = "folder_attrs (ename d) (size_val r)"
  let ?g1 = "g\<lparr>nodes := nodes g @ [(?c, ?a)], edges := edges g @ [(parent, ?c)]\<rparr>"
  have nc: "\<not> has_node g ?c" using Cons.prems(4) by (auto simp: has_node_def)
  have step: "add_subdir clk ap dl subdir parent d (g, w) = (?g1, w1)"
    using nc gfs add_child[OF Cons.prems(1) nc Cons.prems(2)]
    by (simp add: add_subdir_def child_id_def Let_def)
  have "is_dir d" using Cons.prems(5) by simp
  from get_folder_size_value[OF this gfs]
  have t1: "ticks w \<le> ticks w1"
    and dn1: "dir_node ap (overrun clk dl (ticks w) (ticks w1)) subdir d (?c, ?a)"
    by (auto simp: dir_node_def)
  have s1: "set (stdout w) \<subseteq> set (stdout w1)"
    using get_folder_size_stdout[of w clk ?c d dl] gfs by simp
  have p1: "has_node ?g1 parent" using Cons.prems(1) by (simp add: has_node_def)
  have p2: "targets_in ?g1" using Cons.prems(2) by (auto simp: targets_in_def)
  have p3: "distinct (map (child_id ap subdir) ds)" using Cons.prems(3) by simp
  have p4: "set (map (child_id ap subdir) ds) \<inter> set (map fst (nodes ?g1)) = {}"
    using Cons.prems(3,4) by auto
  have p5: "list_all is_dir ds" using Cons.prems(5) by simp
  from Cons.IH[OF p1 p2 p3 p4 p5, of w1] obtain new w' where
    f: "fold (add_subdir clk ap dl subdir parent) ds (?g1, w1)
          = (?g1\<lparr>nodes := nodes ?g1 @ new,
                 edges := edges ?g1 @ map (\<lambda>d. (parent, child_id ap subdir d)) ds\<rparr>, w')"
    and l1: "list_all2 (dir_node ap (overrun clk dl (ticks w1) (ticks w')) subdir) ds new"
    and s2: "set (stdout w1) \<subseteq> set (stdout w')"
    and t2: "ticks w1 \<le> ticks w'" by blast
  have m1: "overrun clk dl (ticks w) (ticks w1) \<Longrightarrow> overrun clk dl (ticks w) (ticks w')"
    and m2: "overrun clk dl (ticks w1) (ticks w') \<Longrightarrow> overrun clk dl (ticks w) (ticks w')"
    using t1 t2 by (auto intro: overrun_mono)
  have dn: "dir_node ap (overrun clk dl (ticks w) (ticks w')) subdir d (?c, ?a)"
    by (rule dir_node_mono[OF dn1]) (rule m1)
  have l: "list_all2 (dir_node ap (overrun clk dl (ticks w) (ticks w')) subdir) ds new"
    by (rule list_all2_mono[OF l1]) (erule dir_node_mono, erule m2)
  show ?case
    using f l dn s1 s2 t1 t2 step
    by (intro exI[of _ "(?c, ?a) # new"] exI[of _ w']) auto
qed

lemma fold_add_file:
  assumes "has_node g parent" "targets_in g"
    and "distinct (map (child_id ap subdir) fs)"
    and "set (map (child_id ap subdir) fs) \<inter> set (map fst (nodes g)) = {}"
  shows "\<exists>w'. fold (add_file ap subdir parent) fs (g, w)
                    = (g\<lparr>nodes := nodes g @ map (file_node ap subdir) fs,
                         edges := edges g @ map (\<lambda>f. (parent, child_id ap subdir f)) fs\<rparr>, w')
           \<and> set (stdout w) \<subseteq> set (stdout w') \<and> ticks w' = ticks w
           \<and> (\<forall>f\<in>set fs. getsize_later f = None \<longrightarrow> warning (child_id ap subdir f) \<in> set (stdout w'))"
  using assms
proof (induction fs arbitrary: g w)
  case Nil
  show ?case by simp
next
  case (Cons f fs)
  let ?c = "child_id ap subdir f"
  let ?w1 = "case getsize_later f of Some n \<Rightarrow> w | None \<Rightarrow> print (warning ?c) w"
  let ?g1 = "g\<lparr>nodes := nodes g @ [file_node ap subdir f], edges := edges g @ [(parent, ?c)]\<rparr>"
  have nc: "\<not> has_node g ?c" using Cons.prems(4) by (auto simp: has_node_def)
  have step: "add_file ap subdir parent f (g, w) = (?g1, ?w1)"
    using nc add_child[OF Cons.prems(1) nc Cons.prems(2)]
    by (cases "getsize_later f") (simp_all add: add_file_def child_id_def file_node_def Let_def)
  have s1: "set (stdout w) \<subseteq> set (stdout ?w1)"
    by (cases "getsize_later f") (auto simp: print_def)
  have t1: "ticks ?w1 = ticks w"
    by (cases "getsize_later f") (auto simp: print_def)
  have wn: "getsize_later f = None \<longrightarrow> warning ?c \<in> set (stdout ?w1)"
    by (auto simp: print_def)
  have p1: "has_node ?g1 parent" using Cons.prems(1) by (simp add: has_node_def)
  have p2: "targets_in ?g1" using Cons.prems(2) by (auto simp: targets_in_def file_node_def)
  have p3: "distinct (map (child_id ap subdir) fs)" using Cons.prems(3) by simp
  have p4: "set (map (child_id ap subdir) fs) \<inter> set (map fst (nodes ?g1)) = {}"
    using Cons.prems(3,4) by (auto simp: file_node_def)
  from Cons.IH[OF p1 p2 p3 p4, of ?w1] obtain w' where
    f: "fold (add_file ap subdir parent) fs (?g1, ?w1)
          = (?g1\<lparr>nodes := nodes ?g1 @ map (file_node ap subdir) fs,
                 edges := edges ?g1 @ map (\<lambda>f. (parent, child_id ap subdir f)) fs\<rparr>, w')"
    and s2: "set (stdout ?w1) \<subseteq> set (stdout w')"
    and t2: "ticks w' = ticks ?w1"
    and w2: "\<forall>f\<in>set fs. getsize_later f = None \<longrightarrow> warning (child_id ap subdir f) \<in> set (stdout w')"
    by blast
  show ?case
    using f s1 s2 t1 t2 wn w2 step
    by (intro exI[of _ w']) auto
qed

lemma item_nodes_ids: "item_nodes ap dl it new \<Longrightarrow> map fst new = child_ids ap it"
proof -
  assume a: "item_nodes ap dl it new"
  obtain subdir e dirs files where it: "it = (subdir, e, dirs, files)" by (cases it) auto
  from a it obtain nd where n: "new = nd @ map (file_node ap subdir) files"
    and l: "list_all2 (dir_node ap dl subdir) dirs nd"
    by (auto simp: item_nodes_def)
  from l have "map fst nd = map (child_id ap subdir) dirs"
    by (induction dirs nd rule: list_all2_induct) (auto simp: dir_node_def)
  with n it show ?thesis
    by (simp add: child_ids_def file_node_def comp_def)
qed

lemma walk_nodes_ids: "walk_nodes ap dl items new \<Longrightarrow> map fst new = walk_ids ap items"
proof -
  assume "walk_nodes ap dl items new"
  then obtain parts where n: "new = concat parts"
    and l: "list_all2 (item_nodes ap dl) items parts"
    by (auto simp: walk_nodes_def)
  from l have "map fst (concat parts) = walk_ids ap items"
    by (induction items parts rule: list_all2_induct)
       (auto simp: walk_ids_def item_nodes_ids)
  with n show ?thesis by simp
qed

lemma visit_known_parent:
  assumes ok: "item_ok it"
    and par: "has_node g (ap (fst it))"
    and tg: "targets_in g"
    and dist: "distinct (child_ids ap it)"
    and fresh: "set (child_ids ap it) \<inter> set (map fst (nodes g)) = {}"
  shows "\<exists>new w'. visit clk ap dl it (g, w)
                    = (g\<lparr>nodes := nodes g @ new, edges := edges g @ item_edges ap it\<rparr>, w')
           \<and> item_nodes ap (overrun clk dl (ticks w) (ticks w')) it new
           \<and> set (stdout w) \<subseteq> set (stdout w') \<and> ticks w \<le> ticks w'
           \<and> warned ap it w'"
proof -
  obtain subdir e dirs files where it: "it = (subdir, e, dirs, files)" by (cases it) auto
  let ?cid = "child_id ap subdir"
  have d1: "distinct (map ?cid dirs)" and d2: "distinct (map ?cid files)"
    and d3: "set (map ?cid dirs) \<inter> set (map ?cid files) = {}"
    using dist by (auto simp: it child_ids_def)
  have f1: "set (map ?cid dirs) \<inter> set (map fst (nodes g)) = {}"
    and f2: "set (map ?cid files) \<inter> set (map fst (nodes g)) = {}"
    using fresh by (auto simp: it child_ids_def)
  have par': "has_node g (ap subdir)" using par by (simp add: it)
  have dirs_ok: "list_all is_dir dirs" using ok by (simp add: it item_ok_def)
  from fold_add_subdir[OF par' tg d1 f1 dirs_ok, of clk dl w] obtain nd w1 where
    fd: "fold (add_subdir clk ap dl subdir (ap subdir)) dirs (g, w)
          = (g\<lparr>nodes := nodes g @ nd,
                edges := edges g @ map (\<lambda>d. (ap subdir, ?cid d)) dirs\<rparr>, w1)"
    and l: "list_all2 (dir_node ap (overrun clk dl (ticks w) (ticks w1)) subdir) dirs nd"
    and s1: "set (stdout w) \<subseteq> set (stdout w1)"
    and t1: "ticks w \<le> ticks w1" by blast
  let ?g1 = "g\<lparr>nodes := nodes g @ nd, edges := edges g @ map (\<lambda>d. (ap subdir, ?cid d)) dirs\<rparr>"
  have nd_ids: "map fst nd = map ?cid dirs"
    using l by (induction dirs nd rule: list_all2_induct) (auto simp: dir_node_def)
  have q1: "has_node ?g1 (ap subdir)" using par' by (simp add: has_node_def)
  have q2: "targets_in ?g1" using tg nd_ids
    by (auto simp: targets_in_def)
  have q4: "set (map ?cid files) \<inter> set (map fst (nodes ?g1)) = {}"
    using f2 d3 nd_ids by auto
  from fold_add_file[OF q1 q2 d2 q4, of w1] obtain w' where
    ff: "fold (add_file ap subdir (ap subdir)) files (?g1, w1)
          = (?g1\<lparr>nodes := nodes ?g1 @ map (file_node ap subdir) files,
                  edges := edges ?g1 @ map (\<lambda>f. (ap subdir, ?cid f)) files\<rparr>, w')"
    and s2: "set (stdout w1) \<subseteq> set (stdout w')"
    and t2: "ticks w' = ticks w1"
    and wn: "\<forall>f\<in>set files. getsize_later f = None \<longrightarrow> warning (?cid f) \<in> set (stdout w')"
    by blast
  have v: "visit clk ap dl it (g, w)
            = (g\<lparr>nodes := nodes g @ (nd @ map (file_node ap subdir) files),
                  edges := edges g @ item_edges ap it\<rparr>, w')"
    using par' fd ff
    by (simp add: visit_def it Let_def item_edges_def child_ids_def)
  show ?thesis
    using v l s1 s2 t1 wn unfolding t2
    by (intro exI[of _ "nd @ map (file_node ap subdir) files"] exI[of _ w'])
       (auto simp: item_nodes_def it warned_def t2)
qed

lemma warned_mono: "warned ap it w \<Longrightarrow> set (stdout w) \<subseteq> set (stdout w') \<Longrightarrow> warned ap it w'"
  by (cases it) (auto simp: warned_def)

lemma fold_visit:
  assumes "list_all item_ok items"
    and "targets_in g"
    and "distinct (map fst (nodes g) @ walk_ids ap items)"
    and "parents_ok ap (set (map fst (nodes g))) items"
  shows "\<exists>new w'. fold (visit clk ap dl) items (g, w)
                    = (g\<lparr>nodes := nodes g @ new, edges := edges g @ walk_edges ap items\<rparr>, w')
           \<and> walk_nodes ap (overrun clk dl (ticks w) (ticks w')) items new
           \<and> set (stdout w) \<subseteq> set (stdout w') \<and> ticks w \<le> ticks w'
           \<and> (\<forall>it\<in>set items. warned ap it w')"
  using assms
proof (induction items arbitrary: g w)
  case Nil
  show ?case
    by (intro exI[of _ "[]"] exI[of _ w]) (simp add: walk_edges_def walk_nodes_def)
next
  case (Cons it items)
  have ok: "item_ok it" and oks: "list_all item_ok items" using Cons.prems(1) by simp_all
  have par: "has_node g (ap (fst it))" using Cons.prems(4) by (simp add: has_node_def)
  have dist: "distinct (child_ids ap it)"
    and fresh: "set (child_ids ap it) \<inter> set (map fst (nodes g)) = {}"
    using Cons.prems(3) by (auto simp: walk_ids_def)
  from visit_known_parent[OF ok par Cons.prems(2) dist fresh, of clk dl w] obtain n1 w1 where
    v: "visit clk ap dl it (g, w)
          = (g\<lparr>nodes := nodes g @ n1, edges := edges g @ item_edges ap it\<rparr>, w1)"
    and in1: "item_nodes ap (overrun clk dl (ticks w) (ticks w1)) it n1"
    and s1: "set (stdout w) \<subseteq> set (stdout w1)"
    and t1: "ticks w \<le> ticks w1"
    and wn1: "warned ap it w1" by blast
  let ?g1 = "g\<lparr>nodes := nodes g @ n1, edges := edges g @ item_edges ap it\<rparr>"
  have ids1: "map fst n1 = child_ids ap it" by (rule item_nodes_ids[OF in1])
  have q2: "targets_in ?g1"
    using Cons.prems(2) ids1 by (auto simp: targets_in_def item_edges_def)
  have q3: "distinct (map fst (nodes ?g1) @ walk_ids ap items)"
    using Cons.prems(3) ids1 by (simp add: walk_ids_def)
  have q4: "parents_ok ap (set (map fst (nodes ?g1))) items"
    using Cons.prems(4) ids1 by (simp add: image_Un)
  from Cons.IH[OF oks q2 q3 q4, of w1] obtain n2 w' where
    f: "fold (visit clk ap dl) items (?g1, w1)
          = (?g1\<lparr>nodes := nodes ?g1 @ n2, edges := edges ?g1 @ walk_edges ap items\<rparr>, w')"
    and wn: "walk_nodes ap (overrun clk dl (ticks w1) (ticks w')) items n2"
    and s2: "set (stdout w1) \<subseteq> set (stdout w')"
    and t2: "ticks w1 \<le> ticks w'"
    and wn2: "\<forall>it\<in>set items. warned ap it w'" by blast
  let ?L = "overrun clk dl (ticks w) (ticks w')"
  have in1': "item_nodes ap ?L it n1"
    by (rule item_nodes_mono[OF in1]) (use t2 in \<open>auto intro: overrun_mono\<close>)
  have "walk_nodes ap ?L items n2"
    by (rule walk_nodes_mono[OF wn]) (use t1 in \<open>auto intro: overrun_mono\<close>)
  then obtain parts where p: "n2 = concat parts"
    and l: "list_all2 (item_nodes ap ?L) items parts" by (auto simp: walk_nodes_def)
  have wn': "walk_nodes ap ?L (it # items) (n1 @ n2)"
    unfolding walk_nodes_def using p l in1'
    by (intro exI[of _ "n1 # parts"]) simp
  show ?case
    using v f wn' s1 s2 t1 t2 wn2 warned_mono[OF wn1 s2]
    by (intro exI[of _ "n1 @ n2"] exI[of _ w']) (auto simp: walk_edges_def)
qed

lemma os_walk_item_ok: "list_all item_ok (os_walk keep p e)"
proof (induction keep p e rule: os_walk.induct)
  case (1 keep dirpath n f s)
  show ?case by simp
next
  case (2 keep dirpath n ok es)
  show ?case
  proof (cases ok)
    case False
    then show ?thesis by simp
  next
    case True
    have "list_all item_ok (concat (map (\<lambda>d. os_walk keep (join dirpath (ename d)) d)
                                      [d \<leftarrow> es. is_dir d \<and> keep (ename d)]))"
      using 2 True by (auto simp: list_all_iff)
    with True show ?thesis
      by (simp add: item_ok_def list_all_iff)
  qed
qed

lemma parents_ok_mono: "parents_ok ap S items \<Longrightarrow> S \<subseteq> S' \<Longrightarrow> parents_ok ap S' items"
proof (induction items arbitrary: S S')
  case Nil
  show ?case by simp
next
  case (Cons it items)
  from Cons.prems have "parents_ok ap (S \<union> set (child_ids ap it)) items" by simp
  from Cons.IH[OF this, of "S' \<union> set (child_ids ap it)"] Cons.prems show ?case by auto
qed

lemma parents_ok_append:
  "parents_ok ap S (xs @ ys) \<longleftrightarrow> parents_ok ap S xs \<and> parents_ok ap (S \<union> set (walk_ids ap xs)) ys"
  by (induction xs arbitrary: S) (auto simp: walk_ids_def Un_assoc)

lemma parents_ok_concat:
  assumes "\<And>d S'. d \<in> set ds \<Longrightarrow> S \<subseteq> S' \<Longrightarrow> parents_ok ap S' (W d)"
  shows "parents_ok ap S (concat (map W ds))"
  using assms
proof (induction ds arbitrary: S)
  case Nil
  show ?case by simp
next
  case (Cons d ds)
  have a: "parents_ok ap S (W d)" using Cons.prems[of d S] by simp
  have b: "parents_ok ap (S \<union> set (walk_ids ap (W d))) (concat (map W ds))"
    by (rule Cons.IH) (use Cons.prems in auto)
  show ?case using a b by (simp add: parents_ok_append)
qed

lemma os_walk_parents_ok: "ap p \<in> S \<Longrightarrow> parents_ok ap S (os_walk keep p e)"
proof (induction keep p e arbitrary: S rule: os_walk.induct)
  case (1 keep dirpath n f s)
  show ?case by simp
next
  case (2 keep dirpath n ok es)
  show ?case
  proof (cases ok)
    case False
    then show ?thesis by simp
  next
    case True
    let ?dirs = "[d \<leftarrow> es. is_dir d \<and> keep (ename d)]"
    let ?it = "(dirpath, Dir n ok es, ?dirs, [f \<leftarrow> es. \<not> is_dir f])"
    have "parents_ok ap (S \<union> set (child_ids ap ?it))
            (concat (map (\<lambda>d. os_walk keep (join dirpath (ename d)) d) ?dirs))"
    proof (rule parents_ok_concat)
      fix d S' assume d: "d \<in> set ?dirs" and s: "S \<union> set (child_ids ap ?it) \<subseteq> S'"
      have "ap (join dirpath (ename d)) \<in> set (child_ids ap ?it)"
        using d by (auto simp: child_ids_def child_id_def)
      with s have "ap (join dirpath (ename d)) \<in> S'" by blast
      from "2.IH"[OF True d this] show "parents_ok ap S' (os_walk keep (join dirpath (ename d)) d)" .
    qed
    with True "2.prems" show ?thesis by simp
  qed
qed

lemma visit_root:
  assumes "\<not> has_node g (ap (fst it))"
  shows "visit clk ap dl it (g, w) =
         visit clk ap dl it
           (add_node g (ap (fst it))
              (folder_attrs (if basename (ap (fst it)) = [] then ap (fst it) else basename (ap (fst it)))
                 (size_val (fst (get_folder_size clk (ap (fst it)) (fst (snd it)) dl w)))),
            snd (get_folder_size clk (ap (fst it)) (fst (snd it)) dl w))"
proof -
  obtain subdir e dirs files where it: "it = (subdir, e, dirs, files)" by (cases it) auto
  obtain r w1 where gfs: "get_folder_size clk (ap subdir) e dl w = (r, w1)"
    by (cases "get_folder_size clk (ap subdir) e dl w") auto
  have h: "has_node (add_node g (ap subdir) a) (ap subdir)" for a
    using assms by (simp add: it add_node_new has_node_def)
  show ?thesis
    using assms h gfs by (simp add: it visit_def Let_def)
qed

lemma walk_ids_Cons: "walk_ids ap (it # items) = child_ids ap it @ walk_ids ap items"
  by (simp add: walk_ids_def)

lemma walk_ids_append: "walk_ids ap (xs @ ys) = walk_ids ap xs @ walk_ids ap ys"
  by (simp add: walk_ids_def)

lemma srcs_append: "srcs ap (xs @ ys) = srcs ap xs @ srcs ap ys"
  by (simp add: srcs_def)

lemma mset_walk_concat:
  assumes "\<And>d. d \<in> set ds \<Longrightarrow>
             add_mset (c d) (mset (walk_ids ap (W d))) = mset (srcs ap (W d)) + mset (L d)"
  shows "mset (map c ds) + mset (walk_ids ap (concat (map W ds)))
           = mset (srcs ap (concat (map W ds))) + mset (concat (map L ds))"
  using assms
proof (induction ds)
  case Nil
  show ?case by (simp add: walk_ids_def srcs_def)
next
  case (Cons d ds)
  have a: "add_mset (c d) (mset (walk_ids ap (W d))) = mset (srcs ap (W d)) + mset (L d)"
    using Cons.prems by simp
  have b: "mset (map c ds) + mset (walk_ids ap (concat (map W ds)))
             = mset (srcs ap (concat (map W ds))) + mset (concat (map L ds))"
    using Cons.IH Cons.prems by simp
  have "mset (map c (d # ds)) + mset (walk_ids ap (concat (map W (d # ds))))
          = add_mset (c d) (mset (walk_ids ap (W d)))
            + (mset (map c ds) + mset (walk_ids ap (concat (map W ds))))"
    by (simp add: walk_ids_append)
  also have "\<dots> = (mset (srcs ap (W d)) + mset (L d))
                  + (mset (srcs ap (concat (map W ds))) + mset (concat (map L ds)))"
    by (simp only: a b)
  also have "\<dots> = mset (srcs ap (concat (map W (d # ds)))) + mset (concat (map L (d # ds)))"
    by (simp add: srcs_append)
  finally show ?case .
qed

lemma leaves_not_dir: "\<not> is_dir f \<Longrightarrow> leaves ap keep p f = [ap p]"
  by (cases f) simp_all

lemma mset_walk:
  "add_mset (ap p) (mset (walk_ids ap (os_walk keep p e)))
     = mset (srcs ap (os_walk keep p e)) + mset (leaves ap keep p e)"
proof (induction keep p e rule: os_walk.induct)
  case (1 keep dirpath n f s)
  show ?case by (simp add: walk_ids_def srcs_def)
next
  case (2 keep dirpath n ok es)
  show ?case
  proof (cases ok)
    case False
    then show ?thesis by (simp add: walk_ids_def srcs_def)
  next
    case True
    let ?dirs = "[d \<leftarrow> es. is_dir d \<and> keep (ename d)]"
    let ?files = "[f \<leftarrow> es. \<not> is_dir f]"
    let ?W = "\<lambda>d. os_walk keep (join dirpath (ename d)) d"
    let ?L = "\<lambda>x. leaves ap keep (join dirpath (ename x)) x"
    let ?c = "child_id ap dirpath"
    have dirs: "mset (map ?c ?dirs) + mset (walk_ids ap (concat (map ?W ?dirs)))
                 = mset (srcs ap (concat (map ?W ?dirs))) + mset (concat (map ?L ?dirs))"
    proof (rule mset_walk_concat)
      fix d assume "d \<in> set ?dirs"
      from "2.IH"[OF True this]
      show "add_mset (?c d) (mset (walk_ids ap (?W d))) = mset (srcs ap (?W d)) + mset (?L d)"
        by (simp add: child_id_def)
    qed
    have "map ?L ?files = map (\<lambda>f. [?c f]) ?files"
      by (rule map_cong) (auto simp: leaves_not_dir child_id_def)
    then have files: "mset (concat (map ?L ?files)) = mset (map ?c ?files)"
      by (simp only: concat_map_singleton)
    have "add_mset (ap dirpath) (mset (walk_ids ap (os_walk keep dirpath (Dir n ok es))))
            = add_mset (ap dirpath)
                ((mset (map ?c ?dirs) + mset (walk_ids ap (concat (map ?W ?dirs))))
                 + mset (map ?c ?files))"
      using True by (simp add: walk_ids_Cons child_ids_def)
    also have "\<dots> = add_mset (ap dirpath)
                ((mset (srcs ap (concat (map ?W ?dirs))) + mset (concat (map ?L ?dirs)))
                 + mset (concat (map ?L ?files)))"
      by (simp only: dirs files)
    also have "\<dots> = mset (srcs ap (os_walk keep dirpath (Dir n ok es)))
                     + mset (leaves ap keep dirpath (Dir n ok es))"
      using True by (simp add: srcs_def)
    finally show ?thesis .
  qed
qed

lemma distinct_srcs_leaves:
  assumes "distinct (ap p # walk_ids ap (os_walk keep p e))"
  shows "distinct (srcs ap (os_walk keep p e) @ leaves ap keep p e)"
proof -
  have "mset (ap p # walk_ids ap (os_walk keep p e))
          = mset (srcs ap (os_walk keep p e) @ leaves ap keep p e)"
    using mset_walk[of ap p keep e] by simp
  from mset_eq_imp_distinct_iff[OF this] assms show ?thesis by blast
qed

lemma leaf_child_in_leaves:
  assumes "it \<in> set (os_walk keep p e)"
    and "x \<in> set (fst (snd (snd it)) @ snd (snd (snd it)))"
    and "os_walk keep (join (fst it) (ename x)) x = []"
  shows "child_id ap (fst it) x \<in> set (leaves ap keep p e)"
  using assms
proof (induction keep p e rule: os_walk.induct)
  case (1 keep dirpath n f s)
  then show ?case by simp
next
  case (2 keep dirpath n ok es)
  from "2.prems"(1) have ok: ok by (auto split: if_splits)
  let ?dirs = "[d \<leftarrow> es. is_dir d \<and> keep (ename d)]"
  let ?files = "[f \<leftarrow> es. \<not> is_dir f]"
  from "2.prems"(1) ok consider
      (head) "it = (dirpath, Dir n ok es, ?dirs, ?files)"
    | (tail) d where "d \<in> set ?dirs" "it \<in> set (os_walk keep (join dirpath (ename d)) d)"
    by auto
  then show ?case
  proof cases
    case head
    with "2.prems"(2) have x: "x \<in> set (?dirs @ ?files)" by simp
    have "leaves ap keep (join dirpath (ename x)) x = [ap (join dirpath (ename x))]"
    proof (cases x)
      case (File n' f' s')
      then show ?thesis by simp
    next
      case (Dir n' ok' es')
      with "2.prems"(3) head have "\<not> ok'" by (auto split: if_splits)
      with Dir show ?thesis by simp
    qed
    with x ok head show ?thesis
      by (auto simp: child_id_def intro!: bexI[of _ x])
  next
    case tail
    from "2.IH"[OF ok tail(1) tail(2) "2.prems"(2) "2.prems"(3)]
    have "child_id ap (fst it) x \<in> set (leaves ap keep (join dirpath (ename d)) d)" .
    with tail(1) ok show ?thesis by auto
  qed
qed

lemma successors_walk_edges:
  "successors \<lparr>nodes = ns, edges = walk_edges ap items\<rparr> i
     = concat (map (\<lambda>it. if ap (fst it) = i then child_ids ap it else []) items)"
proof (induction items)
  case Nil
  show ?case by (simp add: successors_def walk_edges_def)
next
  case (Cons it items)
  have "map snd [e \<leftarrow> item_edges ap it. fst e = i] = (if ap (fst it) = i then child_ids ap it else [])"
    by (simp add: item_edges_def comp_def filter_map)
  with Cons show ?case
    by (simp add: successors_def walk_edges_def)
qed

lemma successors_src:
  assumes "distinct (srcs ap items)" "it \<in> set items"
  shows "successors \<lparr>nodes = ns, edges = walk_edges ap items\<rparr> (ap (fst it)) = child_ids ap it"
proof -
  have "concat (map (\<lambda>it'. if ap (fst it') = ap (fst it) then child_ids ap it' else []) items)
          = child_ids ap it"
    using assms
  proof (induction items)
    case Nil
    then show ?case by simp
  next
    case (Cons a items)
    show ?case
    proof (cases "a = it")
      case True
      have "ap (fst it) \<notin> set (srcs ap items)" using Cons.prems(1) True by (simp add: srcs_def)
      then have "concat (map (\<lambda>it'. if ap (fst it') = ap (fst it) then child_ids ap it' else []) items) = []"
        by (induction items) (auto simp: srcs_def)
      with True show ?thesis by simp
    next
      case False
      with Cons.prems have in': "it \<in> set items" and d: "distinct (srcs ap items)"
        and "ap (fst a) \<notin> set (srcs ap items)" by (auto simp: srcs_def)
      then have "ap (fst a) \<noteq> ap (fst it)" by (auto simp: srcs_def)
      with Cons.IH[OF d in'] show ?thesis by simp
    qed
  qed
  then show ?thesis by (simp add: successors_walk_edges)
qed

lemma successors_no_src:
  assumes "i \<notin> set (srcs ap items)"
  shows "successors \<lparr>nodes = ns, edges = walk_edges ap items\<rparr> i = []"
proof -
  from assms have "concat (map (\<lambda>it. if ap (fst it) = i then child_ids ap it else []) items) = []"
    by (induction items) (auto simp: srcs_def)
  then show ?thesis by (simp add: successors_walk_edges)
qed

lemma reach_walk:
  assumes "parents_ok ap S items"
    and "\<And>s. s \<in> S \<Longrightarrow> s = r \<or> (r, s) \<in> trancl T"
    and "set (walk_edges ap items) \<subseteq> T"
  shows "\<forall>n\<in>set (walk_ids ap items). (r, n) \<in> trancl T"
  using assms
proof (induction items arbitrary: S)
  case Nil
  show ?case by (simp add: walk_ids_def)
next
  case (Cons it items)
  have par: "ap (fst it) = r \<or> (r, ap (fst it)) \<in> trancl T"
    using Cons.prems(1,2) by simp
  have ch: "(r, c) \<in> trancl T" if "c \<in> set (child_ids ap it)" for c
  proof -
    have "(ap (fst it), c) \<in> T"
      using that Cons.prems(3) by (auto simp: walk_edges_def item_edges_def)
    with par show ?thesis by (auto intro: trancl_into_trancl)
  qed
  have rest: "\<forall>n\<in>set (walk_ids ap items). (r, n) \<in> trancl T"
  proof (rule Cons.IH)
    show "parents_ok ap (S \<union> set (child_ids ap it)) items" using Cons.prems(1) by simp
    show "s = r \<or> (r, s) \<in> trancl T" if "s \<in> S \<union> set (child_ids ap it)" for s
      using that Cons.prems(2) ch by auto
    show "set (walk_edges ap items) \<subseteq> T" using Cons.prems(3) by (auto simp: walk_edges_def)
  qed
  with ch show ?case by (auto simp: walk_ids_Cons)
qed

lemma collect_all_Inr: "collect (map (\<lambda>x. Some (Inr (f x))) xs) = Some (Inr (map f xs))"
  by (induction xs) simp_all

lemma walk_ids_concat_le:
  "d \<in> set ds \<Longrightarrow> length (walk_ids ap (W d)) \<le> length (walk_ids ap (concat (map W ds)))"
  by (induction ds) (auto simp: walk_ids_append)

lemma child_in_walk_ids:
  "it \<in> set items \<Longrightarrow> c \<in> set (child_ids ap it) \<Longrightarrow> c \<in> set (walk_ids ap items)"
  by (auto simp: walk_ids_def)

lemma child_id_in_child_ids:
  "y \<in> set (dirs @ files) \<Longrightarrow> child_id ap q y \<in> set (child_ids ap (q, e, dirs, files))"
  by (auto simp: child_ids_def)

lemma add_children_subtrees:
  fixes g :: digraph
  assumes succ_src: "\<And>it. it \<in> set items \<Longrightarrow> successors g (ap (fst it)) = child_ids ap it"
    and succ_leaf: "\<And>i. i \<notin> set (srcs ap items) \<Longrightarrow> successors g i = []"
    and has: "\<And>i. i \<in> set (walk_ids ap items) \<Longrightarrow> node_attrs g i \<noteq> None"
    and leaf: "\<And>it x. it \<in> set items \<Longrightarrow> x \<in> set (fst (snd (snd it)) @ snd (snd (snd it))) \<Longrightarrow>
                 os_walk keep (join (fst it) (ename x)) x = [] \<Longrightarrow>
                 child_id ap (fst it) x \<notin> set (srcs ap items)"
  shows "set (os_walk keep q x) \<subseteq> set items \<Longrightarrow>
         (os_walk keep q x = [] \<longrightarrow> ap q \<notin> set (srcs ap items)) \<Longrightarrow>
         length (walk_ids ap (os_walk keep q x)) < fuel \<Longrightarrow>
         add_children fuel g (ap q) = Some (Inr (subtrees ap keep (attrs_of g) q x))"
proof (induction x arbitrary: q fuel)
  case (File n f s)
  then obtain k where k: "fuel = Suc k" by (cases fuel) auto
  from File.prems(2) have "successors g (ap q) = []" by (simp add: succ_leaf)
  then show ?case by (simp add: k)
next
  case (Dir n ok es)
  then obtain k where k: "fuel = Suc k" by (cases fuel) auto
  show ?case
  proof (cases ok)
    case False
    with Dir.prems(2) have "successors g (ap q) = []" by (simp add: succ_leaf)
    with False show ?thesis by (simp add: k)
  next
    case True
    let ?dirs = "[d \<leftarrow> es. is_dir d \<and> keep (ename d)]"
    let ?files = "[f \<leftarrow> es. \<not> is_dir f]"
    let ?it = "(q, Dir n ok es, ?dirs, ?files)"
    let ?W = "\<lambda>y. os_walk keep (join q (ename y)) y"
    let ?T = "\<lambda>y. Tree (attrs_of g (child_id ap q y)) (child_id ap q y)
                   (if subtrees ap keep (attrs_of g) (join q (ename y)) y = [] then None
                    else Some (subtrees ap keep (attrs_of g) (join q (ename y)) y))"
    have walk: "os_walk keep q (Dir n ok es) = ?it # concat (map ?W ?dirs)"
      using True by simp
    have p1: "set (?it # concat (map ?W ?dirs)) \<subseteq> set items"
      using Dir.prems(1) unfolding walk .
    have p3: "length (walk_ids ap (?it # concat (map ?W ?dirs))) < fuel"
      using Dir.prems(3) unfolding walk .
    have it_in: "?it \<in> set items" using p1 by simp
    have succ: "successors g (ap q) = map (child_id ap q) (?dirs @ ?files)"
      using succ_src[OF it_in] by (simp add: child_ids_def)
    have len: "length (?dirs @ ?files) + length (walk_ids ap (concat (map ?W ?dirs))) \<le> k"
      using p3 k by (simp add: walk_ids_Cons child_ids_def)
    have each: "(case node_attrs g (child_id ap q y) of
                   None \<Rightarrow> Some (Inl (KeyError (child_id ap q y)))
                 | Some a \<Rightarrow>
                     (case add_children k g (child_id ap q y) of
                        None \<Rightarrow> None
                      | Some (Inl e) \<Rightarrow> Some (Inl e)
                      | Some (Inr c) \<Rightarrow>
                          Some (Inr (Tree a (child_id ap q y) (if c = [] then None else Some c)))))
                = Some (Inr (?T y))"
      if y: "y \<in> set (?dirs @ ?files)" for y
    proof -
      have yes: "y \<in> set es" using y by auto
      have "child_id ap q y \<in> set (walk_ids ap items)"
        by (rule child_in_walk_ids[OF it_in child_id_in_child_ids[OF y]])
      from has[OF this] obtain a where a: "node_attrs g (child_id ap q y) = Some a" by auto
      then have a': "attrs_of g (child_id ap q y) = a" by (simp add: attrs_of_def)
      have sub: "set (?W y) \<subseteq> set items"
      proof (cases "y \<in> set ?dirs")
        case True
        then show ?thesis using p1 by auto
      next
        case False
        with y have "\<not> is_dir y" by auto
        then have "?W y = []" by (cases y) simp_all
        then show ?thesis by simp
      qed
      have lf: "?W y = [] \<longrightarrow> ap (join q (ename y)) \<notin> set (srcs ap items)"
        using leaf[OF it_in, of y] y by (simp add: child_id_def)
      have ln: "length (walk_ids ap (?W y)) < k"
      proof (cases "y \<in> set ?dirs")
        case True
        then have "length (walk_ids ap (?W y)) \<le> length (walk_ids ap (concat (map ?W ?dirs)))"
          by (rule walk_ids_concat_le)
        moreover have "0 < length (?dirs @ ?files)" using y by (cases "?dirs @ ?files") auto
        ultimately show ?thesis using len by linarith
      next
        case False
        with y have "\<not> is_dir y" by auto
        then have e: "?W y = []" by (cases y) simp_all
        have "0 < length (?dirs @ ?files)" using y by (cases "?dirs @ ?files") auto
        with len have "0 < k" by linarith
        then show ?thesis unfolding e by (simp add: walk_ids_def)
      qed
      from Dir.IH[OF yes sub lf ln]
      have "add_children k g (child_id ap q y)
              = Some (Inr (subtrees ap keep (attrs_of g) (join q (ename y)) y))"
        by (simp add: child_id_def)
      with a a' show ?thesis by simp
    qed
    let ?F = "\<lambda>child. case node_attrs g child of
                   None \<Rightarrow> Some (Inl (KeyError child))
                 | Some a \<Rightarrow>
                     (case add_children k g child of
                        None \<Rightarrow> None
                      | Some (Inl e) \<Rightarrow> Some (Inl e)
                      | Some (Inr c) \<Rightarrow>
                          Some (Inr (Tree a child (if c = [] then None else Some c))))"
    have maps: "map ?F (map (child_id ap q) (?dirs @ ?files))
                  = map (\<lambda>y. Some (Inr (?T y))) (?dirs @ ?files)"
      unfolding map_map comp_def by (rule map_cong[OF refl]) (rule each)
    have "add_children fuel g (ap q) = collect (map ?F (successors g (ap q)))"
      unfolding k by (rule add_children.simps(2))
    also have "\<dots> = collect (map (\<lambda>y. Some (Inr (?T y))) (?dirs @ ?files))"
      unfolding succ maps ..
    also have "\<dots> = Some (Inr (map ?T (?dirs @ ?files)))" by (rule collect_all_Inr)
    also have "map ?T (?dirs @ ?files) = subtrees ap keep (attrs_of g) q (Dir n ok es)"
      using True by simp
    finally show ?thesis .
  qed
qed

lemma walk_top_Cons:
  assumes "walk_top keep p fs = it # rest"
  shows "\<exists>n es. fs = Some (Dir n True es) \<and> fst it = p \<and> fst (snd it) = Dir n True es"
proof (cases fs)
  case None
  with assms show ?thesis by simp
next
  case (Some e)
  with assms show ?thesis by (cases e) (auto split: if_splits)
qed

lemma walk_top_Nil:
  assumes "walk_top keep p fs = []"
  shows "\<not> (\<exists>n es. fs = Some (Dir n True es))"
  using assms by auto

lemma walk_top_item_ok: "list_all item_ok (walk_top keep p fs)"
  by (cases fs) (simp_all add: os_walk_item_ok)

lemma walk_top_parents_ok: "ap p \<in> S \<Longrightarrow> parents_ok ap S (walk_top keep p fs)"
  by (cases fs) (simp_all add: os_walk_parents_ok)

lemma build_graph_shape:
  assumes "ids_distinct ap ignore P fs"
  shows "\<exists>ra new w'.
           build_graph clk ap fs P ignore ms w
             = (\<lparr>nodes = (ap (ap P), ra) # new,
                 edges = walk_edges ap (build_items ap ignore P fs)\<rparr>, w')
         \<and> root_attrs_ok (overrun clk (build_deadline clk ms w) (ticks w) (ticks w')) (ap (ap P)) fs ra
         \<and> walk_nodes ap (overrun clk (build_deadline clk ms w) (ticks w) (ticks w'))
              (build_items ap ignore P fs) new
         \<and> set (stdout w) \<subseteq> set (stdout w')
         \<and> (\<forall>it\<in>set (build_items ap ignore P fs). warned ap it w')"
proof -
  let ?r = "ap (ap P)"
  let ?items = "build_items ap ignore P fs"
  let ?w0 = "print ''[INFO] Building tree-style JSON structure. This may take a while for large directories...'' w"
  obtain dl w1 where sd: "set_deadline clk ms ?w0 = (dl, w1)"
    by (cases "set_deadline clk ms ?w0") auto
  have dl: "build_deadline clk ms w = dl" using sd by (simp add: build_deadline_def)
  have s01: "set (stdout w) \<subseteq> set (stdout w1)"
    using sd by (auto simp: set_deadline_def print_def split: option.splits if_splits)
  have t01: "ticks w \<le> ticks w1"
    using sd by (auto simp: set_deadline_def print_def split: option.splits if_splits)
  obtain g w2 where fv: "fold (visit clk ap dl) ?items (empty_graph, w1) = (g, w2)"
    by (cases "fold (visit clk ap dl) ?items (empty_graph, w1)") auto
  have bg: "build_graph clk ap fs P ignore ms w
              = ((if \<not> has_node g ?r
                  then add_node g ?r [(''type'', PyStr ''folder''), (''name'', PyStr (basename ?r))]
                  else g), w2)"
    using sd fv by (simp add: build_graph_def Let_def build_items_def)
  show ?thesis
  proof (cases ?items)
    case Nil
    then have g: "g = empty_graph" "w2 = w1" using fv by simp_all
    have "\<not> (\<exists>n es. fs = Some (Dir n True es))"
      using Nil walk_top_Nil unfolding build_items_def by blast
    then have ra: "root_attrs_ok L ?r fs [(''type'', PyStr ''folder''), (''name'', PyStr (basename ?r))]" for L
      by (auto simp: root_attrs_ok_def split: option.splits entry.splits bool.splits)
    show ?thesis
      unfolding dl
      by (intro exI[of _ "[(''type'', PyStr ''folder''), (''name'', PyStr (basename ?r))]"]
                exI[of _ "[]"] exI[of _ w1])
         (use bg g Nil ra s01 in
            \<open>simp add: empty_graph_def has_node_def add_node_def walk_edges_def walk_nodes_def\<close>)
  next
    case (Cons it0 rest)
    from walk_top_Cons[OF Cons[unfolded build_items_def]] obtain n es where
      fs: "fs = Some (Dir n True es)" and p0: "fst it0 = ap P" and e0: "fst (snd it0) = Dir n True es"
      by blast
    obtain res w1' where gfs: "get_folder_size clk ?r (Dir n True es) dl w1 = (res, w1')"
      by (cases "get_folder_size clk ?r (Dir n True es) dl w1") auto
    let ?ra = "folder_attrs (root_name ?r) (size_val res)"
    let ?gr = "\<lparr>nodes = [(?r, ?ra)], edges = []\<rparr>"
    have nr: "\<not> has_node empty_graph (ap (fst it0))" by (simp add: has_node_def empty_graph_def)
    have "visit clk ap dl it0 (empty_graph, w1) = visit clk ap dl it0 (?gr, w1')"
      using visit_root[where g=empty_graph and ap=ap and it=it0, OF nr, of clk dl w1] gfs
      by (simp add: p0 e0 root_name_def add_node_def has_node_def empty_graph_def)
    then have fv': "fold (visit clk ap dl) ?items (?gr, w1') = (g, w2)"
      using fv Cons by simp
    have q1: "list_all item_ok ?items" unfolding build_items_def by (rule walk_top_item_ok)
    have q2: "targets_in ?gr" by (simp add: targets_in_def)
    have q3: "distinct (map fst (nodes ?gr) @ walk_ids ap ?items)"
      using assms by (simp add: ids_distinct_def)
    have q4: "parents_ok ap (set (map fst (nodes ?gr))) ?items"
      unfolding build_items_def by (rule walk_top_parents_ok) simp
    from fold_visit[OF q1 q2 q3 q4, of clk dl w1'] fv' obtain new where
      g: "g = ?gr\<lparr>nodes := nodes ?gr @ new, edges := edges ?gr @ walk_edges ap ?items\<rparr>"
      and wn1: "walk_nodes ap (overrun clk dl (ticks w1') (ticks w2)) ?items new"
      and s2: "set (stdout w1') \<subseteq> set (stdout w2)"
      and t2: "ticks w1' \<le> ticks w2"
      and wd: "\<forall>it\<in>set ?items. warned ap it w2" by auto
    have s12: "set (stdout w1) \<subseteq> set (stdout w1')"
      using get_folder_size_stdout[of w1 clk ?r "Dir n True es" dl] gfs by simp
    have "is_dir (Dir n True es)" by simp
    from get_folder_size_value[OF this gfs]
    have t1: "ticks w1 \<le> ticks w1'"
      and rv: "res = Some (total_size (Dir n True es))
               \<or> overrun clk dl (ticks w1) (ticks w1') \<and> res = None" by simp_all
    let ?L = "overrun clk dl (ticks w) (ticks w2)"
    have wn: "walk_nodes ap ?L ?items new"
      by (rule walk_nodes_mono[OF wn1]) (use t01 t1 in \<open>auto intro: overrun_mono\<close>)
    have "overrun clk dl (ticks w1) (ticks w1') \<Longrightarrow> ?L"
      using t01 t2 by (auto intro: overrun_mono)
    with rv have ra: "root_attrs_ok ?L ?r fs ?ra"
      by (auto simp: root_attrs_ok_def fs)
    have hr: "has_node g ?r" using g by (simp add: has_node_def)
    show ?thesis
      unfolding dl
      by (intro exI[of _ ?ra] exI[of _ new] exI[of _ w2])
         (use bg hr g wn wd ra s01 s12 s2 in auto)
  qed
qed

lemma length_walk_edges: "length (walk_edges ap items) = length (walk_ids ap items)"
  by (induction items) (simp_all add: walk_edges_def walk_ids_def item_edges_def)

lemma walk_top_distinct_srcs_leaves:
  assumes "distinct (ap p # walk_ids ap (walk_top keep p fs))"
  shows "distinct (srcs ap (walk_top keep p fs))"
    and "\<And>it x. it \<in> set (walk_top keep p fs) \<Longrightarrow>
           x \<in> set (fst (snd (snd it)) @ snd (snd (snd it))) \<Longrightarrow>
           os_walk keep (join (fst it) (ename x)) x = [] \<Longrightarrow>
           child_id ap (fst it) x \<notin> set (srcs ap (walk_top keep p fs))"
proof -
  show "distinct (srcs ap (walk_top keep p fs))"
  proof (cases fs)
    case None
    then show ?thesis by (simp add: srcs_def)
  next
    case (Some e)
    with assms distinct_srcs_leaves[of ap p keep e] show ?thesis by simp
  qed
next
  fix it x
  assume it: "it \<in> set (walk_top keep p fs)"
    and x: "x \<in> set (fst (snd (snd it)) @ snd (snd (snd it)))"
    and w: "os_walk keep (join (fst it) (ename x)) x = []"
  from it obtain e where fs: "fs = Some e" by (cases fs) auto
  with it have it': "it \<in> set (os_walk keep p e)" by simp
  from assms fs have "distinct (srcs ap (os_walk keep p e) @ leaves ap keep p e)"
    using distinct_srcs_leaves[of ap p keep e] by simp
  moreover have "child_id ap (fst it) x \<in> set (leaves ap keep p e)"
    by (rule leaf_child_in_leaves[OF it' x w])
  ultimately show "child_id ap (fst it) x \<notin> set (srcs ap (walk_top keep p fs))"
    using fs by auto
qed

lemma tree_data_walk:
  fixes ap keep p fs ra new
  defines "items \<equiv> walk_top keep p fs"
  defines "g \<equiv> \<lparr>nodes = (ap p, ra) # new, edges = walk_edges ap items\<rparr>"
  assumes ids: "map fst new = walk_ids ap items"
    and dist: "distinct (ap p # walk_ids ap items)"
  shows "tree_data g (ap p) = Some (Inr (Tree ra (ap p) (Some (top_subtrees ap keep (attrs_of g) p fs))))"
proof -
  have cnt: "length (nodes g) = length (edges g) + 1"
    using ids by (simp add: g_def length_walk_edges flip: length_map[of fst new])
  let ?T = "set (edges g @ map prod.swap (edges g))"
  have reach: "\<forall>n\<in>set (walk_ids ap items). (ap p, n) \<in> trancl ?T"
  proof (rule reach_walk)
    show "parents_ok ap {ap p} items" unfolding items_def by (rule walk_top_parents_ok) simp
    show "s = ap p \<or> (ap p, s) \<in> trancl ?T" if "s \<in> {ap p}" for s using that by simp
    show "set (walk_edges ap items) \<subseteq> ?T" by (auto simp: g_def)
  qed
  have conn: "is_weakly_connected g"
    using reach ids by (simp add: is_weakly_connected_def g_def)
  have d_src: "distinct (srcs ap items)"
    unfolding items_def by (rule walk_top_distinct_srcs_leaves(1)) (use dist in \<open>simp add: items_def\<close>)
  have succ_src: "successors g (ap (fst it)) = child_ids ap it" if "it \<in> set items" for it
    unfolding g_def by (rule successors_src[OF d_src that])
  have succ_leaf: "successors g i = []" if "i \<notin> set (srcs ap items)" for i
    unfolding g_def by (rule successors_no_src[OF that])
  have has: "node_attrs g i \<noteq> None" if "i \<in> set (walk_ids ap items)" for i
  proof -
    from that ids have "i \<in> fst ` set ((ap p, ra) # new)" by (metis image_insert insertCI list.simps(15) set_map)
    then have "map_of ((ap p, ra) # new) i \<noteq> None" by (simp only: map_of_eq_None_iff not_not)
    then show ?thesis by (simp add: node_attrs_def g_def)
  qed
  have leaf: "child_id ap (fst it) x \<notin> set (srcs ap items)"
    if "it \<in> set items" "x \<in> set (fst (snd (snd it)) @ snd (snd (snd it)))"
       "os_walk keep (join (fst it) (ename x)) x = []" for it x
    using walk_top_distinct_srcs_leaves(2)[of ap p keep fs it x] dist that
    by (simp add: items_def)
  have ac: "add_children (length (nodes g)) g (ap p)
              = Some (Inr (top_subtrees ap keep (attrs_of g) p fs))"
  proof (cases fs)
    case None
    then have "items = []" by (simp add: items_def)
    then have "successors g (ap p) = []" using succ_leaf[of "ap p"] by (simp add: srcs_def)
    moreover obtain k where "length (nodes g) = Suc k" by (simp add: g_def)
    ultimately show ?thesis using None by (simp add: top_subtrees_def)
  next
    case (Some e)
    have i: "items = os_walk keep p e" using Some by (simp add: items_def)
    have "add_children (length (nodes g)) g (ap p) = Some (Inr (subtrees ap keep (attrs_of g) p e))"
    proof (rule add_children_subtrees[where items=items and keep=keep])
      show "successors g (ap (fst it)) = child_ids ap it" if "it \<in> set items" for it
        by (rule succ_src[OF that])
      show "successors g i = []" if "i \<notin> set (srcs ap items)" for i
        by (rule succ_leaf[OF that])
      show "node_attrs g i \<noteq> None" if "i \<in> set (walk_ids ap items)" for i
        by (rule has[OF that])
      show "child_id ap (fst it) x \<notin> set (srcs ap items)"
        if "it \<in> set items" "x \<in> set (fst (snd (snd it)) @ snd (snd (snd it)))"
           "os_walk keep (join (fst it) (ename x)) x = []" for it x
        by (rule leaf[OF that])
      show "set (os_walk keep p e) \<subseteq> set items" by (simp add: i)
      show "os_walk keep p e = [] \<longrightarrow> ap p \<notin> set (srcs ap items)" by (simp add: i srcs_def)
      show "length (walk_ids ap (os_walk keep p e)) < length (nodes g)"
        using ids by (simp add: g_def i flip: length_map[of fst new])
    qed
    with Some show ?thesis by (simp add: top_subtrees_def)
  qed
  have na: "node_attrs g (ap p) = Some ra" by (simp add: node_attrs_def g_def)
  show ?thesis
    using cnt conn ac na by (simp add: tree_data_def)
qed

lemma build_tree_json_shape:
  assumes "ids_distinct ap ignore P fs"
  shows "\<exists>g ra new w'.
           build_graph clk ap fs P ignore ms w = (g, w')
         \<and> g = \<lparr>nodes = (ap (ap P), ra) # new, edges = walk_edges ap (build_items ap ignore P fs)\<rparr>
         \<and> build_tree_json clk ap fs P ignore ms w
             = (Some (Inr (Tree ra (ap (ap P))
                  (Some (top_subtrees ap (\<lambda>d. d \<notin> normalize_ignores ignore) (attrs_of g) (ap P) fs)))), w')
         \<and> root_attrs_ok (overrun clk (build_deadline clk ms w) (ticks w) (ticks w')) (ap (ap P)) fs ra
         \<and> walk_nodes ap (overrun clk (build_deadline clk ms w) (ticks w) (ticks w'))
              (build_items ap ignore P fs) new
         \<and> set (stdout w) \<subseteq> set (stdout w')
         \<and> (\<forall>it\<in>set (build_items ap ignore P fs). warned ap it w')"
proof -
  from build_graph_shape[OF assms, of clk ms w] obtain ra new w' where
    bg: "build_graph clk ap fs P ignore ms w
           = (\<lparr>nodes = (ap (ap P), ra) # new, edges = walk_edges ap (build_items ap ignore P fs)\<rparr>, w')"
    and ra: "root_attrs_ok (overrun clk (build_deadline clk ms w) (ticks w) (ticks w')) (ap (ap P)) fs ra"
    and wn: "walk_nodes ap (overrun clk (build_deadline clk ms w) (ticks w) (ticks w'))
               (build_items ap ignore P fs) new"
    and so: "set (stdout w) \<subseteq> set (stdout w')"
    and wd: "\<forall>it\<in>set (build_items ap ignore P fs). warned ap it w'" by blast
  let ?g = "\<lparr>nodes = (ap (ap P), ra) # new, edges = walk_edges ap (build_items ap ignore P fs)\<rparr>"
  have td: "tree_data ?g (ap (ap P))
              = Some (Inr (Tree ra (ap (ap P))
                  (Some (top_subtrees ap (\<lambda>d. d \<notin> normalize_ignores ignore) (attrs_of ?g) (ap P) fs))))"
    using tree_data_walk[of new ap "\<lambda>d. d \<notin> normalize_ignores ignore" "ap P" fs ra]
      walk_nodes_ids[OF wn] assms
    by (simp add: ids_distinct_def build_items_def)
  show ?thesis
    using bg td ra wn so wd
    by (intro exI[of _ ?g] exI[of _ ra] exI[of _ new] exI[of _ w'])
       (simp add: build_tree_json_def)
qed

lemma tree_nodes_opt:
  "tree_nodes (Tree a i (if ts = [] then None else Some ts)) =
     Tree a i (if ts = [] then None else Some ts) # concat (map tree_nodes ts)"
  by simp

lemma list_all2_concat_map:
  "(\<And>y. y \<in> set ys \<Longrightarrow> list_all2 R (f y) (g y)) \<Longrightarrow>
   list_all2 R (concat (map f ys)) (concat (map g ys))"
  by (induction ys) (auto intro: list_all2_appendI)

lemma subtrees_located:
  "list_all2 (\<lambda>n ix. tid n = fst ix \<and> tattrs n = att (fst ix))
     (concat (map tree_nodes (subtrees ap keep att p e))) (located ap keep p e)"
proof (induction e arbitrary: p)
  case (File n f s)
  show ?case by simp
next
  case (Dir n ok es)
  show ?case
  proof (cases ok)
    case False
    then show ?thesis by simp
  next
    case True
    let ?ys = "[d \<leftarrow> es. is_dir d \<and> keep (ename d)] @ [f \<leftarrow> es. \<not> is_dir f]"
    let ?sub = "\<lambda>y. subtrees ap keep att (join p (ename y)) y"
    let ?T = "\<lambda>y. Tree (att (child_id ap p y)) (child_id ap p y)
                   (if ?sub y = [] then None else Some (?sub y))"
    have "list_all2 (\<lambda>n ix. tid n = fst ix \<and> tattrs n = att (fst ix))
            (concat (map (\<lambda>y. tree_nodes (?T y)) ?ys))
            (concat (map (\<lambda>y. (child_id ap p y, y) # located ap keep (join p (ename y)) y) ?ys))"
    proof (rule list_all2_concat_map)
      fix y assume "y \<in> set ?ys"
      then have "y \<in> set es" by auto
      from Dir.IH[OF this, of "join p (ename y)"]
      show "list_all2 (\<lambda>n ix. tid n = fst ix \<and> tattrs n = att (fst ix))
              (tree_nodes (?T y)) ((child_id ap p y, y) # located ap keep (join p (ename y)) y)"
        unfolding tree_nodes_opt by simp
    qed
    then show ?thesis using True by (simp add: comp_def)
  qed
qed

lemma located_in_walk:
  "ix \<in> set (located ap keep p e) \<Longrightarrow>
   \<exists>it\<in>set (os_walk keep p e). snd ix \<in> set (item_children it) \<and> fst ix = child_id ap (fst it) (snd ix)"
proof (induction e arbitrary: p)
  case (File n f s)
  then show ?case by simp
next
  case (Dir n ok es)
  from Dir.prems have ok: ok by (auto split: if_splits)
  let ?dirs = "[d \<leftarrow> es. is_dir d \<and> keep (ename d)]"
  let ?files = "[f \<leftarrow> es. \<not> is_dir f]"
  let ?it = "(p, Dir n ok es, ?dirs, ?files)"
  have walk: "os_walk keep p (Dir n ok es)
                = ?it # concat (map (\<lambda>d. os_walk keep (join p (ename d)) d) ?dirs)"
    using ok by simp
  from Dir.prems ok obtain y where y: "y \<in> set (?dirs @ ?files)"
    and ix: "ix = (child_id ap p y, y) \<or> ix \<in> set (located ap keep (join p (ename y)) y)"
    by auto
  from ix show ?case
  proof
    assume "ix = (child_id ap p y, y)"
    with y show ?thesis unfolding walk by (auto simp: item_children_def)
  next
    assume a: "ix \<in> set (located ap keep (join p (ename y)) y)"
    have yes: "y \<in> set es" using y by auto
    from Dir.IH[OF yes a] obtain it where
      it: "it \<in> set (os_walk keep (join p (ename y)) y)"
      and c: "snd ix \<in> set (item_children it)" "fst ix = child_id ap (fst it) (snd ix)" by blast
    from it have "is_dir y" by (cases y) auto
    with y have "y \<in> set ?dirs" by auto
    with it have "it \<in> set (os_walk keep p (Dir n ok es))" unfolding walk by auto
    with c show ?thesis by blast
  qed
qed

lemma list_all2_memberD: "list_all2 P xs ys \<Longrightarrow> x \<in> set xs \<Longrightarrow> \<exists>y\<in>set ys. P x y"
  by (induction rule: list_all2_induct) auto

lemma walk_nodes_member:
  assumes "walk_nodes ap dl items new" "it \<in> set items" "item_ok it" "x \<in> set (item_children it)"
  shows "\<exists>a. (child_id ap (fst it) x, a) \<in> set new \<and> entry_attrs_ok dl x a"
proof -
  from assms(1) obtain parts where n: "new = concat parts"
    and l: "list_all2 (item_nodes ap dl) items parts" by (auto simp: walk_nodes_def)
  from list_all2_memberD[OF l assms(2)] obtain part where
    p: "part \<in> set parts" and i: "item_nodes ap dl it part" by blast
  obtain subdir e dirs files where it: "it = (subdir, e, dirs, files)" by (cases it) auto
  from i it obtain nd where part: "part = nd @ map (file_node ap subdir) files"
    and ld: "list_all2 (dir_node ap dl subdir) dirs nd" by (auto simp: item_nodes_def)
  from assms(3) it have dirs: "\<forall>d\<in>set dirs. is_dir d" and files: "\<forall>f\<in>set files. \<not> is_dir f"
    by (auto simp: item_ok_def list_all_iff)
  from assms(4) it have "x \<in> set dirs \<or> x \<in> set files" by (auto simp: item_children_def)
  then have "\<exists>a. (child_id ap subdir x, a) \<in> set part \<and> entry_attrs_ok dl x a"
  proof
    assume x: "x \<in> set dirs"
    from list_all2_memberD[OF ld x] obtain na where na: "na \<in> set nd" "dir_node ap dl subdir x na"
      by blast
    with x dirs have "(child_id ap subdir x, snd na) \<in> set part \<and> entry_attrs_ok dl x (snd na)"
      unfolding part by (cases na) (auto simp: dir_node_def entry_attrs_ok_def)
    then show ?thesis by blast
  next
    assume x: "x \<in> set files"
    with files have "(child_id ap subdir x, file_attrs (ename x) (size_val (getsize_later x))) \<in> set part
           \<and> entry_attrs_ok dl x (file_attrs (ename x) (size_val (getsize_later x)))"
      unfolding part by (auto simp: file_node_def entry_attrs_ok_def)
    then show ?thesis by blast
  qed
  with p n it show ?thesis by auto
qed

lemma attrs_of_child:
  assumes "walk_nodes ap dl items new" "distinct (r # walk_ids ap items)"
    and "it \<in> set items" "item_ok it" "x \<in> set (item_children it)"
  shows "entry_attrs_ok dl x (attrs_of \<lparr>nodes = (r, ra) # new, edges = E\<rparr> (child_id ap (fst it) x))"
proof -
  from walk_nodes_member[OF assms(1,3,4,5)] obtain a where
    a: "(child_id ap (fst it) x, a) \<in> set new" "entry_attrs_ok dl x a" by blast
  have "distinct (map fst ((r, ra) # new))"
    using assms(2) walk_nodes_ids[OF assms(1)] by simp
  moreover have "(child_id ap (fst it) x, a) \<in> set ((r, ra) # new)" using a by simp
  ultimately have "map_of ((r, ra) # new) (child_id ap (fst it) x) = Some a"
    by (rule map_of_is_SomeI)
  with a show ?thesis by (simp add: attrs_of_def node_attrs_def)
qed

lemma keep_of_eq: "(\<lambda>d. d \<notin> normalize_ignores ignore) = keep_of ignore"
  by (simp add: keep_of_def fun_eq_iff)

lemma build_tree_json_facts:
  assumes "ids_distinct ap ignore P fs"
  shows "\<exists>att ra w'.
           build_tree_json clk ap fs P ignore ms w
             = (Some (Inr (Tree ra (ap (ap P))
                  (Some (top_subtrees ap (keep_of ignore) att (ap P) fs)))), w')
         \<and> root_attrs_ok (overrun clk (build_deadline clk ms w) (ticks w) (ticks w')) (ap (ap P)) fs ra
         \<and> (\<forall>it\<in>set (build_items ap ignore P fs). \<forall>x\<in>set (item_children it).
               entry_attrs_ok (overrun clk (build_deadline clk ms w) (ticks w) (ticks w')) x
                 (att (child_id ap (fst it) x)))
         \<and> set (stdout w) \<subseteq> set (stdout w')
         \<and> (\<forall>it\<in>set (build_items ap ignore P fs). warned ap it w')"
proof -
  from build_tree_json_shape[OF assms, of clk ms w] obtain g ra new w' where
    g: "g = \<lparr>nodes = (ap (ap P), ra) # new, edges = walk_edges ap (build_items ap ignore P fs)\<rparr>"
    and bt: "build_tree_json clk ap fs P ignore ms w
             = (Some (Inr (Tree ra (ap (ap P))
                  (Some (top_subtrees ap (\<lambda>d. d \<notin> normalize_ignores ignore) (attrs_of g) (ap P) fs)))), w')"
    and ra: "root_attrs_ok (overrun clk (build_deadline clk ms w) (ticks w) (ticks w')) (ap (ap P)) fs ra"
    and wn: "walk_nodes ap (overrun clk (build_deadline clk ms w) (ticks w) (ticks w'))
               (build_items ap ignore P fs) new"
    and so: "set (stdout w) \<subseteq> set (stdout w')"
    and wd: "\<forall>it\<in>set (build_items ap ignore P fs). warned ap it w'" by blast
  let ?L = "overrun clk (build_deadline clk ms w) (ticks w) (ticks w')"
  have d: "distinct (ap (ap P) # walk_ids ap (build_items ap ignore P fs))"
    using assms by (simp add: ids_distinct_def)
  have oks: "list_all item_ok (build_items ap ignore P fs)"
    unfolding build_items_def by (rule walk_top_item_ok)
  have att: "entry_attrs_ok ?L x (attrs_of g (child_id ap (fst it) x))"
    if "it \<in> set (build_items ap ignore P fs)" "x \<in> set (item_children it)" for it x
    unfolding g
    by (rule attrs_of_child[OF wn d that(1) _ that(2)]) (use oks that(1) in \<open>simp add: list_all_iff\<close>)
  show ?thesis
    using bt ra att so wd unfolding keep_of_eq
    by (intro exI[of _ "attrs_of g"] exI[of _ ra] exI[of _ w']) blast
qed

lemma tree_nodes_hd: "tree_nodes t = t # tl (tree_nodes t)"
  by (cases t rule: tree_nodes.cases) simp_all

lemma kids_in_nodes:
  "m \<in> set (tree_nodes t) \<Longrightarrow> c \<in> set (kids m) \<Longrightarrow> c \<in> set (tl (tree_nodes t))"
proof (induction t rule: tree_nodes.induct)
  case (1 a i)
  then show ?case by (simp add: kids_def)
next
  case (2 a i ts)
  from "2.prems"(1) consider (root) "m = Tree a i (Some ts)"
    | (below) t' where "t' \<in> set ts" "m \<in> set (tree_nodes t')" by auto
  then show ?case
  proof cases
    case root
    with "2.prems"(2) have "c \<in> set ts" by (simp add: kids_def)
    moreover have "c \<in> set (tree_nodes c)" by (subst tree_nodes_hd) simp
    ultimately show ?thesis by auto
  next
    case below
    from "2.IH"[OF below "2.prems"(2)] have "c \<in> set (tl (tree_nodes t'))" .
    then have "c \<in> set (tree_nodes t')" by (subst tree_nodes_hd) simp
    with below(1) show ?thesis by auto
  qed
qed

lemma nodes_have_parent:
  "n \<in> set (tl (tree_nodes t)) \<Longrightarrow> \<exists>m\<in>set (tree_nodes t). n \<in> set (kids m)"
proof (induction t rule: tree_nodes.induct)
  case (1 a i)
  then show ?case by simp
next
  case (2 a i ts)
  from "2.prems" obtain t' where t': "t' \<in> set ts" and n: "n \<in> set (tree_nodes t')" by auto
  from n have "n = t' \<or> n \<in> set (tl (tree_nodes t'))" by (subst (asm) tree_nodes_hd) simp
  then show ?case
  proof
    assume "n = t'"
    with t' show ?thesis by (auto simp: kids_def)
  next
    assume "n \<in> set (tl (tree_nodes t'))"
    from "2.IH"[OF t' this] obtain m where "m \<in> set (tree_nodes t')" "n \<in> set (kids m)" by blast
    with t' show ?thesis by auto
  qed
qed

lemma parentless_root:
  assumes "distinct (map tid (tree_nodes t))"
  shows "parentless t = [t]"
proof -
  let ?has = "\<lambda>n. list_ex (\<lambda>m. tid n \<in> set (map tid (kids m))) (tree_nodes t)"
  have split: "tree_nodes t = t # tl (tree_nodes t)" by (rule tree_nodes_hd)
  have root: "\<not> ?has t"
  proof
    assume "?has t"
    then obtain m c where "m \<in> set (tree_nodes t)" "c \<in> set (kids m)" "tid t = tid c"
      by (auto simp: list_ex_iff)
    with kids_in_nodes have "tid t \<in> tid ` set (tl (tree_nodes t))" by blast
    moreover have "distinct (tid t # map tid (tl (tree_nodes t)))"
      using assms by (subst (asm) split) simp
    ultimately show False by simp
  qed
  have rest: "?has n" if "n \<in> set (tl (tree_nodes t))" for n
    using nodes_have_parent[OF that] by (auto simp: list_ex_iff)
  have "filter (\<lambda>n. \<not> ?has n) (tl (tree_nodes t)) = []"
    using rest by (simp add: filter_empty_conv)
  with root show ?thesis
    unfolding parentless_def by (subst split) simp
qed

lemma mset_located_concat:
  assumes "\<And>y. y \<in> set ys \<Longrightarrow> mset (map fst (L y)) = mset (V y)"
  shows "mset (map fst (concat (map (\<lambda>y. (c y, y) # L y) ys)))
           = mset (map c ys) + mset (concat (map V ys))"
  using assms by (induction ys) simp_all

lemma walk_ids_concat: "walk_ids ap (concat (map W ds)) = concat (map (\<lambda>d. walk_ids ap (W d)) ds)"
  by (induction ds) (simp_all add: walk_ids_append, simp add: walk_ids_def)

lemma located_ids_mset:
  "mset (map fst (located ap keep p e)) = mset (walk_ids ap (os_walk keep p e))"
proof (induction e arbitrary: p)
  case (File n f s)
  show ?case by (simp add: walk_ids_def)
next
  case (Dir n ok es)
  show ?case
  proof (cases ok)
    case False
    then show ?thesis by (simp add: walk_ids_def)
  next
    case True
    let ?dirs = "[d \<leftarrow> es. is_dir d \<and> keep (ename d)]"
    let ?files = "[f \<leftarrow> es. \<not> is_dir f]"
    let ?V = "\<lambda>y. walk_ids ap (os_walk keep (join p (ename y)) y)"
    have "mset (map fst (located ap keep p (Dir n ok es)))
            = mset (map (child_id ap p) (?dirs @ ?files)) + mset (concat (map ?V (?dirs @ ?files)))"
      unfolding located.simps if_P[OF True]
      by (rule mset_located_concat) (use Dir.IH in auto)
    moreover have "concat (map ?V ?files) = []"
    proof -
      have "?V f = []" if "f \<in> set ?files" for f
      proof -
        from that have "\<not> is_dir f" by simp
        then show ?thesis by (cases f) (simp_all add: walk_ids_def)
      qed
      then show ?thesis by simp
    qed
    ultimately show ?thesis
      using True by (simp add: walk_ids_Cons child_ids_def walk_ids_concat)
  qed
qed

lemma subtrees_ids:
  "map tid (concat (map tree_nodes (subtrees ap keep att p e))) = map fst (located ap keep p e)"
  using subtrees_located[of att ap keep p e]
  by (induction rule: list_all2_induct) auto

lemma top_subtrees_distinct:
  assumes "distinct (ap p # walk_ids ap (walk_top keep p fs))"
  shows "distinct (map tid (tree_nodes (Tree ra (ap p) (Some (top_subtrees ap keep att p fs)))))"
proof (cases fs)
  case None
  then show ?thesis by (simp add: top_subtrees_def)
next
  case (Some e)
  have "mset (map tid (concat (map tree_nodes (subtrees ap keep att p e))))
          = mset (walk_ids ap (os_walk keep p e))"
    by (simp only: subtrees_ids located_ids_mset)
  then have "mset (ap p # map tid (concat (map tree_nodes (subtrees ap keep att p e))))
          = mset (ap p # walk_ids ap (os_walk keep p e))" by simp
  from mset_eq_imp_distinct_iff[OF this] assms Some show ?thesis
    by (simp add: top_subtrees_def)
qed

section \<open>A single string as ignore argument\<close>


section \<open>The example tree with \<open>B\<close> ignored\<close>

text \<open>
  Claim C1, as stated: with \<open>B\<close> in the ignore set and no deadline, the root \<open>A\<close> has
  size 4.  It does not: the folder size is computed by \<open>get_folder_size\<close>, which walks
  everything under \<open>A\<close> and knows no ignore set.
\<close>

theorem example_ignored_root_size_not_4:
  "\<not> root_size_is
        (fst (build_tree_json second_clock example_abspath (Some example_A) ''/A'' (IgnoreStr ''B'') None world0)) 4"
  by code_simp

text \<open>
  Claim C1, amended: with \<open>B\<close> in the ignore set and no deadline, the result is the root
  \<open>A\<close> with size 10, the sum over every file under \<open>A\<close>, whose only child is \<open>a.txt\<close>
  with size 4; there is no node for \<open>B\<close> or \<open>b.txt\<close>.
\<close>

theorem example_ignored_tree:
  "fst (build_tree_json second_clock example_abspath (Some example_A) ''/A'' (IgnoreStr ''B'') None world0) =
     Some (Inr (Tree (folder_attrs ''A'' (PyInt 10)) ''/A''
                  (Some [Tree (file_attrs ''a.txt'' (PyInt 4)) ''/A/a.txt'' None])))"
  by code_simp

section \<open>Rootedness\<close>

text \<open>
  The theorems about whole builds assume \<open>ids_distinct\<close>: the root and the entries
  that the walk reaches have pairwise distinct canonical paths.  In a file system
  every directory holds each name once and \<^verbatim>\<open>os.path.abspath\<close> maps different
  normalised paths to different paths, so this holds for every build; the model, where
  \<open>abspath\<close> is a parameter and a listing is any list, has to say it.  The last
  section derives it from these two facts (\<open>wellformed_ids_distinct\<close>).

  Claim C8.  The build from the path \<open>P\<close> returns a tree whose root has the
  identifier \<open>abspath P\<close> (for an idempotent \<open>abspath\<close>), and the root is the one
  node of the tree that is no child of a node.
\<close>

theorem tree_rooted_at_abspath:
  assumes "ids_distinct abspath ignore P fs"
    and "abspath (abspath P) = abspath P"
  shows "\<exists>t w'. build_tree_json clk abspath fs P ignore ms w = (Some (Inr t), w')
           \<and> tid t = abspath P \<and> parentless t = [t]"
proof -
  from build_tree_json_facts[OF assms(1), of clk ms w] obtain att ra w' where
    bt: "build_tree_json clk abspath fs P ignore ms w
           = (Some (Inr (Tree ra (abspath (abspath P))
                (Some (top_subtrees abspath (keep_of ignore) att (abspath P) fs)))), w')"
    by blast
  let ?t = "Tree ra (abspath (abspath P)) (Some (top_subtrees abspath (keep_of ignore) att (abspath P) fs))"
  have "distinct (map tid (tree_nodes ?t))"
    by (rule top_subtrees_distinct)
       (use assms(1) in \<open>simp add: ids_distinct_def build_items_def keep_of_eq\<close>)
  then have "parentless ?t = [?t]" by (rule parentless_root)
  with bt assms(2) show ?thesis by simp
qed

theorem tree_rooted_at_abspath_witness:
  "ids_distinct example_abspath (IgnoreNames []) ''/A'' (Some example_A) \<and>
   example_abspath (example_abspath ''/A'') = example_abspath ''/A'' \<and>
   (\<exists>t w'. build_tree_json second_clock example_abspath (Some example_A) ''/A''
              (IgnoreNames []) None world0
              = (Some (Inr t), w')
           \<and> tid t = example_abspath ''/A'' \<and> parentless t = [t])"
proof -
  have d: "ids_distinct example_abspath (IgnoreNames []) ''/A'' (Some example_A)"
    by (simp add: ids_distinct_def build_items_def example_A_def walk_ids_def child_ids_def
          child_id_def join_def example_abspath_def)
  have i: "example_abspath (example_abspath ''/A'') = example_abspath ''/A''"
    by (simp add: example_abspath_def)
  from tree_rooted_at_abspath[OF d i, of second_clock None world0] d i show ?thesis by blast
qed

section \<open>The only fatal condition\<close>










section \<open>Size additivity\<close>














section \<open>Ignore pruning\<close>

text \<open>
  Claim C6, as stated: no node of the tree has, anywhere in its path, a segment whose
  name is in the ignore set.  Line 125 prunes directory names only: with the default
  ignore set, which holds \<open>bin\<close>, the file \<open>/A/bin\<close> is a node of the tree.
\<close>

theorem ignored_file_name_kept: "fst (build_tree_json second_clock example_abspath (Some example_bin) ''/A'' IgnoreNone None world0)
         = Some (Inr (Tree (folder_attrs ''A'' (PyInt 1)) ''/A''
                  (Some [Tree (file_attrs ''bin'' (PyInt 1)) ''/A/bin'' None])))
   \<and> \<not> no_ignored_segment (normalize_ignores IgnoreNone)
          (Tree (folder_attrs ''A'' (PyInt 1)) ''/A''
                  (Some [Tree (file_attrs ''bin'' (PyInt 1)) ''/A/bin'' None]))"
  by code_simp

lemma entry_attrs_name:
  "entry_attrs_ok dl y a \<Longrightarrow> map_of a ''name'' = Some (PyStr (ename y))"
  by (auto simp: entry_attrs_ok_def folder_attrs_def file_attrs_def split: if_splits)

lemma entry_attrs_folder:
  "entry_attrs_ok dl y a \<Longrightarrow> map_of a ''type'' = Some (PyStr ''folder'') \<Longrightarrow> is_dir y"
  by (auto simp: entry_attrs_ok_def folder_attrs_def file_attrs_def split: if_splits)

lemma subtrees_pruned:
  assumes "\<And>it x. it \<in> set (os_walk keep p e) \<Longrightarrow> x \<in> set (item_children it) \<Longrightarrow>
             entry_attrs_ok dl x (att (child_id ap (fst it) x))"
    and "\<And>d. keep d \<Longrightarrow> d \<notin> I"
  shows "pruned_ok ap I p (Tree a i (Some (subtrees ap keep att p e)))"
  using assms(1)
proof (induction e arbitrary: p a i)
  case (File n f s)
  show ?case by simp
next
  case (Dir n ok es)
  show ?case
  proof (cases ok)
    case False
    then show ?thesis by simp
  next
    case True
    let ?dirs = "[d \<leftarrow> es. is_dir d \<and> keep (ename d)]"
    let ?files = "[f \<leftarrow> es. \<not> is_dir f]"
    let ?it = "(p, Dir n ok es, ?dirs, ?files)"
    let ?sub = "\<lambda>y. subtrees ap keep att (join p (ename y)) y"
    let ?T = "\<lambda>y. Tree (att (child_id ap p y)) (child_id ap p y)
                   (if ?sub y = [] then None else Some (?sub y))"
    have walk: "os_walk keep p (Dir n ok es)
                  = ?it # concat (map (\<lambda>d. os_walk keep (join p (ename d)) d) ?dirs)"
      using True by simp
    have each: "case map_of (tattrs (?T y)) ''name'' of
                  Some (PyStr nm) \<Rightarrow>
                    tid (?T y) = ap (join p nm)
                    \<and> (tree_type (?T y) = Some (PyStr ''folder'') \<longrightarrow> nm \<notin> I)
                    \<and> pruned_ok ap I (join p nm) (?T y)
                | _ \<Rightarrow> False"
      if y: "y \<in> set (?dirs @ ?files)" for y
    proof -
      have yes: "y \<in> set es" using y by auto
      have ea: "entry_attrs_ok dl y (att (child_id ap p y))"
        using Dir.prems[of ?it y] y unfolding walk by (simp add: item_children_def)
      have nm: "map_of (tattrs (?T y)) ''name'' = Some (PyStr (ename y))"
        using entry_attrs_name[OF ea] by simp
      have fol: "ename y \<notin> I" if "tree_type (?T y) = Some (PyStr ''folder'')"
      proof -
        from that entry_attrs_folder[OF ea] have "is_dir y" by (simp add: tree_type_def)
        with y have "keep (ename y)" by auto
        then show ?thesis by (rule assms(2))
      qed
      have rec: "pruned_ok ap I (join p (ename y)) (?T y)"
      proof (cases "?sub y = []")
        case True
        then show ?thesis by simp
      next
        case False
        then have "is_dir y" by (cases y) auto
        with y have yd: "y \<in> set ?dirs" by auto
        have "pruned_ok ap I (join p (ename y))
                (Tree (att (child_id ap p y)) (child_id ap p y) (Some (?sub y)))"
        proof (rule Dir.IH[OF yes])
          fix it x
          assume it: "it \<in> set (os_walk keep (join p (ename y)) y)"
            and x: "x \<in> set (item_children it)"
          from it yd have "it \<in> set (os_walk keep p (Dir n ok es))"
            unfolding walk by auto
          from Dir.prems[OF this x]
          show "entry_attrs_ok dl x (att (child_id ap (fst it) x))" .
        qed
        with False show ?thesis by simp
      qed
      show ?thesis
        unfolding nm using fol rec by (simp add: child_id_def)
    qed
    have "list_all (\<lambda>c. case map_of (tattrs c) ''name'' of
                     Some (PyStr nm) \<Rightarrow>
                       tid c = ap (join p nm)
                       \<and> (tree_type c = Some (PyStr ''folder'') \<longrightarrow> nm \<notin> I)
                       \<and> pruned_ok ap I (join p nm) c
                   | _ \<Rightarrow> False) (map ?T (?dirs @ ?files))"
      unfolding list_all_iff using each by auto
    with True show ?thesis by simp
  qed
qed

text \<open>
  Claim C6, amended: no directory below the root whose name is in the ignore set is a
  node of the tree, and nothing beneath such a directory is.  Every node below the root
  has as identifier the canonical form of its parent's path joined with its own name,
  and every folder node below the root has a name outside the ignore set.
\<close>

theorem ignored_directories_pruned:
  assumes "ids_distinct abspath ignore P fs"
  shows "\<exists>t w'. build_tree_json clk abspath fs P ignore ms w = (Some (Inr t), w')
           \<and> pruned_ok abspath (normalize_ignores ignore) (abspath P) t"
proof -
  from build_tree_json_facts[OF assms(1), of clk ms w] obtain att ra w' where
    bt: "build_tree_json clk abspath fs P ignore ms w
           = (Some (Inr (Tree ra (abspath (abspath P))
                (Some (top_subtrees abspath (keep_of ignore) att (abspath P) fs)))), w')"
    and att: "\<forall>it\<in>set (build_items abspath ignore P fs). \<forall>x\<in>set (item_children it).
               entry_attrs_ok (overrun clk (build_deadline clk ms w) (ticks w) (ticks w')) x
                 (att (child_id abspath (fst it) x))"
    by blast
  let ?dl = "overrun clk (build_deadline clk ms w) (ticks w) (ticks w')"
  have "pruned_ok abspath (normalize_ignores ignore) (abspath P)
          (Tree ra (abspath (abspath P)) (Some (top_subtrees abspath (keep_of ignore) att (abspath P) fs)))"
  proof (cases fs)
    case None
    then show ?thesis by (simp add: top_subtrees_def)
  next
    case (Some e)
    have "pruned_ok abspath (normalize_ignores ignore) (abspath P)
            (Tree ra (abspath (abspath P)) (Some (subtrees abspath (keep_of ignore) att (abspath P) e)))"
    proof (rule subtrees_pruned[where dl = ?dl])
      show "entry_attrs_ok ?dl x (att (child_id abspath (fst it) x))"
        if "it \<in> set (os_walk (keep_of ignore) (abspath P) e)" "x \<in> set (item_children it)" for it x
        using att that Some by (simp add: build_items_def keep_of_eq)
      show "d \<notin> normalize_ignores ignore" if "keep_of ignore d" for d
        using that by (simp add: keep_of_def)
    qed
    with Some show ?thesis by (simp add: top_subtrees_def)
  qed
  with bt show ?thesis by simp
qed

theorem ignored_directories_pruned_witness:
  "ids_distinct example_abspath (IgnoreStr ''B'') ''/A'' (Some example_A) \<and>
   (\<exists>t w'. build_tree_json second_clock example_abspath (Some example_A) ''/A'' (IgnoreStr ''B'') None world0
              = (Some (Inr t), w')
          \<and> pruned_ok example_abspath {''B''} ''/A'' t)"
proof -
  have d: "ids_distinct example_abspath (IgnoreStr ''B'') ''/A'' (Some example_A)"
    by (simp add: ids_distinct_def build_items_def example_A_def walk_ids_def child_ids_def
          child_id_def join_def example_abspath_def)
  have a: "example_abspath ''/A'' = ''/A''" by (simp add: example_abspath_def)
  from ignored_directories_pruned[OF d, of second_clock None world0] d show ?thesis
    unfolding a by simp
qed

section \<open>Two builds of an unchanged file system\<close>

lemma entry_attrs_agree:
  "entry_attrs_ok dl1 x a \<Longrightarrow> entry_attrs_ok dl2 x b \<Longrightarrow> attrs_agree a b"
  by (auto simp: entry_attrs_ok_def attrs_agree_def folder_attrs_def split: if_splits)

lemma entry_attrs_unique:
  "entry_attrs_ok False x a \<Longrightarrow> entry_attrs_ok False x b \<Longrightarrow> a = b"
  by (auto simp: entry_attrs_ok_def split: if_splits)

lemma root_attrs_agree:
  "root_attrs_ok dl1 r fs a \<Longrightarrow> root_attrs_ok dl2 r fs b \<Longrightarrow> attrs_agree a b"
  by (auto simp: root_attrs_ok_def attrs_agree_def folder_attrs_def
           split: option.splits entry.splits bool.splits)

lemma root_attrs_unique:
  "root_attrs_ok False r fs a \<Longrightarrow> root_attrs_ok False r fs b \<Longrightarrow> a = b"
  by (auto simp: root_attrs_ok_def split: option.splits entry.splits bool.splits)

lemma build_deadline_disabled: "budget_disabled ms \<Longrightarrow> build_deadline clk ms w = None"
  by (auto simp: budget_disabled_def build_deadline_def set_deadline_def split: option.splits)

lemma os_walk_child_subset:
  assumes "y \<in> set ([d \<leftarrow> es. is_dir d \<and> keep (ename d)] @ [f \<leftarrow> es. \<not> is_dir f])"
  shows "set (os_walk keep (join p (ename y)) y) \<subseteq> set (os_walk keep p (Dir n True es))"
proof (cases "is_dir y")
  case True
  with assms have "y \<in> set [d \<leftarrow> es. is_dir d \<and> keep (ename d)]" by auto
  then show ?thesis by auto
next
  case False
  then have "os_walk keep (join p (ename y)) y = []" by (cases y) simp_all
  then show ?thesis by simp
qed

lemma os_walk_head_children:
  assumes "y \<in> set ([d \<leftarrow> es. is_dir d \<and> keep (ename d)] @ [f \<leftarrow> es. \<not> is_dir f])"
  shows "\<exists>it\<in>set (os_walk keep p (Dir n True es)). fst it = p \<and> y \<in> set (item_children it)"
  using assms by (auto simp: item_children_def)

lemma subtrees_agree:
  assumes "\<And>it x. it \<in> set (os_walk keep p e) \<Longrightarrow> x \<in> set (item_children it) \<Longrightarrow>
             attrs_agree (att1 (child_id ap (fst it) x)) (att2 (child_id ap (fst it) x))"
  shows "list_all2 same_modulo_deadline (subtrees ap keep att1 p e) (subtrees ap keep att2 p e)"
  using assms
proof (induction e arbitrary: p)
  case (File n f s)
  show ?case by simp
next
  case (Dir n ok es)
  show ?case
  proof (cases ok)
    case False
    then show ?thesis by simp
  next
    case True
    let ?ys = "[d \<leftarrow> es. is_dir d \<and> keep (ename d)] @ [f \<leftarrow> es. \<not> is_dir f]"
    let ?s1 = "\<lambda>y. subtrees ap keep att1 (join p (ename y)) y"
    let ?s2 = "\<lambda>y. subtrees ap keep att2 (join p (ename y)) y"
    have each: "same_modulo_deadline
                  (Tree (att1 (child_id ap p y)) (child_id ap p y) (if ?s1 y = [] then None else Some (?s1 y)))
                  (Tree (att2 (child_id ap p y)) (child_id ap p y) (if ?s2 y = [] then None else Some (?s2 y)))"
      if y: "y \<in> set ?ys" for y
    proof -
      have yes: "y \<in> set es" using y by auto
      from os_walk_head_children[OF y, of p n] obtain it where
        it: "it \<in> set (os_walk keep p (Dir n True es))" "fst it = p" "y \<in> set (item_children it)"
        by blast
      have ag: "attrs_agree (att1 (child_id ap p y)) (att2 (child_id ap p y))"
        using Dir.prems[of it y] it True by simp
      have sub: "list_all2 same_modulo_deadline (?s1 y) (?s2 y)"
      proof (rule Dir.IH[OF yes])
        fix it' x
        assume a: "it' \<in> set (os_walk keep (join p (ename y)) y)" and x: "x \<in> set (item_children it')"
        from a os_walk_child_subset[OF y, of p n] True
        have "it' \<in> set (os_walk keep p (Dir n ok es))" by auto
        from Dir.prems[OF this x]
        show "attrs_agree (att1 (child_id ap (fst it') x)) (att2 (child_id ap (fst it') x))" .
      qed
      then have "?s1 y = [] \<longleftrightarrow> ?s2 y = []" by (auto dest: list_all2_lengthD)
      with ag sub show ?thesis by simp
    qed
    have "list_all2 same_modulo_deadline
            (map (\<lambda>y. Tree (att1 (child_id ap p y)) (child_id ap p y) (if ?s1 y = [] then None else Some (?s1 y))) ?ys)
            (map (\<lambda>y. Tree (att2 (child_id ap p y)) (child_id ap p y) (if ?s2 y = [] then None else Some (?s2 y))) ?ys)"
      unfolding list_all2_map1 list_all2_map2 list_all2_same using each by blast
    with True show ?thesis by simp
  qed
qed

lemma subtrees_cong_att:
  assumes "\<And>it x. it \<in> set (os_walk keep p e) \<Longrightarrow> x \<in> set (item_children it) \<Longrightarrow>
             att1 (child_id ap (fst it) x) = att2 (child_id ap (fst it) x)"
  shows "subtrees ap keep att1 p e = subtrees ap keep att2 p e"
  using assms
proof (induction e arbitrary: p)
  case (File n f s)
  show ?case by simp
next
  case (Dir n ok es)
  show ?case
  proof (cases ok)
    case False
    then show ?thesis by simp
  next
    case True
    let ?ys = "[d \<leftarrow> es. is_dir d \<and> keep (ename d)] @ [f \<leftarrow> es. \<not> is_dir f]"
    have each: "att1 (child_id ap p y) = att2 (child_id ap p y)
                \<and> subtrees ap keep att1 (join p (ename y)) y = subtrees ap keep att2 (join p (ename y)) y"
      if y: "y \<in> set ?ys" for y
    proof -
      have yes: "y \<in> set es" using y by auto
      from os_walk_head_children[OF y, of p n] obtain it where
        it: "it \<in> set (os_walk keep p (Dir n True es))" "fst it = p" "y \<in> set (item_children it)"
        by blast
      have a: "att1 (child_id ap p y) = att2 (child_id ap p y)"
        using Dir.prems[of it y] it True by simp
      have "subtrees ap keep att1 (join p (ename y)) y = subtrees ap keep att2 (join p (ename y)) y"
      proof (rule Dir.IH[OF yes])
        fix it' x
        assume b: "it' \<in> set (os_walk keep (join p (ename y)) y)" and x: "x \<in> set (item_children it')"
        from b os_walk_child_subset[OF y, of p n] True
        have "it' \<in> set (os_walk keep p (Dir n ok es))" by auto
        from Dir.prems[OF this x]
        show "att1 (child_id ap (fst it') x) = att2 (child_id ap (fst it') x)" .
      qed
      with a show ?thesis by simp
    qed
    have "map (\<lambda>x. Tree (att1 (child_id ap p x)) (child_id ap p x)
                   (if subtrees ap keep att1 (join p (ename x)) x = [] then None
                    else Some (subtrees ap keep att1 (join p (ename x)) x))) ?ys
        = map (\<lambda>x. Tree (att2 (child_id ap p x)) (child_id ap p x)
                   (if subtrees ap keep att2 (join p (ename x)) x = [] then None
                    else Some (subtrees ap keep att2 (join p (ename x)) x))) ?ys"
      by (rule map_cong[OF refl]) (use each in simp)
    with True show ?thesis by simp
  qed
qed

text \<open>
  Claim C9.  Two builds of the same file system with the same arguments, under any two
  clocks and from any two states of the console, return trees with the same nodes, the
  same children in the same order and the same attributes, except that the size of a
  folder may be \<open>None\<close> in one tree and present in the other.  When the time budget is
  disabled the two trees are equal.
\<close>

theorem two_builds_agree:
  assumes "ids_distinct abspath ignore P fs"
  shows "\<exists>t1 t2 w1' w2'.
           build_tree_json clk1 abspath fs P ignore ms w1 = (Some (Inr t1), w1')
         \<and> build_tree_json clk2 abspath fs P ignore ms w2 = (Some (Inr t2), w2')
         \<and> same_modulo_deadline t1 t2
         \<and> (budget_disabled ms \<longrightarrow> t1 = t2)"
proof -
  let ?r = "abspath (abspath P)"
  let ?k = "keep_of ignore"
  let ?items = "build_items abspath ignore P fs"
  from build_tree_json_facts[OF assms, of clk1 ms w1] obtain att1 ra1 w1' where
    b1: "build_tree_json clk1 abspath fs P ignore ms w1
           = (Some (Inr (Tree ra1 ?r (Some (top_subtrees abspath ?k att1 (abspath P) fs)))), w1')"
    and r1: "root_attrs_ok (overrun clk1 (build_deadline clk1 ms w1) (ticks w1) (ticks w1')) ?r fs ra1"
    and a1: "\<forall>it\<in>set ?items. \<forall>x\<in>set (item_children it).
               entry_attrs_ok (overrun clk1 (build_deadline clk1 ms w1) (ticks w1) (ticks w1')) x
                 (att1 (child_id abspath (fst it) x))"
    by blast
  from build_tree_json_facts[OF assms, of clk2 ms w2] obtain att2 ra2 w2' where
    b2: "build_tree_json clk2 abspath fs P ignore ms w2
           = (Some (Inr (Tree ra2 ?r (Some (top_subtrees abspath ?k att2 (abspath P) fs)))), w2')"
    and r2: "root_attrs_ok (overrun clk2 (build_deadline clk2 ms w2) (ticks w2) (ticks w2')) ?r fs ra2"
    and a2: "\<forall>it\<in>set ?items. \<forall>x\<in>set (item_children it).
               entry_attrs_ok (overrun clk2 (build_deadline clk2 ms w2) (ticks w2) (ticks w2')) x
                 (att2 (child_id abspath (fst it) x))"
    by blast
  let ?d1 = "overrun clk1 (build_deadline clk1 ms w1) (ticks w1) (ticks w1')"
  let ?d2 = "overrun clk2 (build_deadline clk2 ms w2) (ticks w2) (ticks w2')"
  let ?t1 = "Tree ra1 ?r (Some (top_subtrees abspath ?k att1 (abspath P) fs))"
  let ?t2 = "Tree ra2 ?r (Some (top_subtrees abspath ?k att2 (abspath P) fs))"
  have items: "?items = (case fs of None \<Rightarrow> [] | Some e \<Rightarrow> os_walk ?k (abspath P) e)"
    by (cases fs) (simp_all add: build_items_def keep_of_eq)
  have sub: "list_all2 same_modulo_deadline (top_subtrees abspath ?k att1 (abspath P) fs)
               (top_subtrees abspath ?k att2 (abspath P) fs)"
  proof (cases fs)
    case None
    then show ?thesis by (simp add: top_subtrees_def)
  next
    case (Some e)
    have "list_all2 same_modulo_deadline (subtrees abspath ?k att1 (abspath P) e)
            (subtrees abspath ?k att2 (abspath P) e)"
    proof (rule subtrees_agree)
      fix it x
      assume "it \<in> set (os_walk ?k (abspath P) e)" "x \<in> set (item_children it)"
      with a1 a2 items Some
      have "entry_attrs_ok ?d1 x (att1 (child_id abspath (fst it) x))"
        and "entry_attrs_ok ?d2 x (att2 (child_id abspath (fst it) x))" by auto
      then show "attrs_agree (att1 (child_id abspath (fst it) x)) (att2 (child_id abspath (fst it) x))"
        by (rule entry_attrs_agree)
    qed
    with Some show ?thesis by (simp add: top_subtrees_def)
  qed
  have same: "same_modulo_deadline ?t1 ?t2"
    using root_attrs_agree[OF r1 r2] sub by simp
  have eq: "?t1 = ?t2" if dis: "budget_disabled ms"
  proof -
    have d1: "?d1 = False" and d2: "?d2 = False"
      using dis by (simp_all add: build_deadline_disabled overrun_def)
    have ra: "ra1 = ra2" using r1 r2 unfolding d1 d2 by (rule root_attrs_unique)
    have "top_subtrees abspath ?k att1 (abspath P) fs = top_subtrees abspath ?k att2 (abspath P) fs"
    proof (cases fs)
      case None
      then show ?thesis by (simp add: top_subtrees_def)
    next
      case (Some e)
      have "subtrees abspath ?k att1 (abspath P) e = subtrees abspath ?k att2 (abspath P) e"
      proof (rule subtrees_cong_att)
        fix it x
        assume "it \<in> set (os_walk ?k (abspath P) e)" "x \<in> set (item_children it)"
        with a1 a2 items Some d1 d2
        have "entry_attrs_ok False x (att1 (child_id abspath (fst it) x))"
          and "entry_attrs_ok False x (att2 (child_id abspath (fst it) x))" by auto
        then show "att1 (child_id abspath (fst it) x) = att2 (child_id abspath (fst it) x)"
          by (rule entry_attrs_unique)
      qed
      with Some show ?thesis by (simp add: top_subtrees_def)
    qed
    with ra show ?thesis by simp
  qed
  show ?thesis
    using b1 b2 same eq by blast
qed

theorem two_builds_agree_witness:
  "ids_distinct example_abspath (IgnoreNames []) ''/A'' (Some example_A) \<and>
   budget_disabled (Some 0) \<and>
   (\<exists>t w1' w2'.
      build_tree_json second_clock example_abspath (Some example_A) ''/A'' (IgnoreNames []) (Some 0) world0
        = (Some (Inr t), w1')
    \<and> build_tree_json (\<lambda>k. 5 * real k) example_abspath (Some example_A) ''/A'' (IgnoreNames []) (Some 0)
        \<lparr>ticks = 7, stdout = []\<rparr>
        = (Some (Inr t), w2')
    \<and> same_modulo_deadline t t)"
proof -
  have d: "ids_distinct example_abspath (IgnoreNames []) ''/A'' (Some example_A)"
    by (simp add: ids_distinct_def build_items_def example_A_def walk_ids_def child_ids_def
          child_id_def join_def example_abspath_def)
  have b: "budget_disabled (Some 0)" by (simp add: budget_disabled_def)
  from two_builds_agree[OF d, of second_clock "Some 0" world0 "\<lambda>k. 5 * real k" "\<lparr>ticks = 7, stdout = []\<rparr>"]
    d b show ?thesis by blast
qed

section \<open>A file whose size cannot be read\<close>










section \<open>Folder sizes after the deadline\<close>

text \<open>
  The deadline is computed once, by \<open>set_deadline\<close> in \<open>build_graph\<close>, and every call of
  \<open>get_folder_size\<close> of the build receives that value.  Under a clock that never runs
  backwards, once a reading has exceeded the deadline, the size of every directory that
  can be listed is \<open>None\<close>: the first check of the loop already fails.
\<close>

lemma get_folder_size_after_deadline:
  assumes "mono clk" and "d < clk k" and "k \<le> ticks w"
  shows "fst (get_folder_size clk p (Dir n True es) (Some d) w) = None"
proof -
  obtain res w' where r: "size_walk clk (Some d) (os_walk (\<lambda>_. True) p (Dir n True es)) 0 w = (res, w')"
    by (cases "size_walk clk (Some d) (os_walk (\<lambda>_. True) p (Dir n True es)) 0 w") auto
  have "clk k \<le> clk (ticks w)" using assms(1,3) by (simp add: monoD)
  with assms(2) have late: "\<not> clk (ticks w + 0) \<le> d" by simp
  have "0 < walk_units (os_walk (\<lambda>_. True) p (Dir n True es))"
    by (simp add: walk_units_def)
  with late have "\<not> (\<forall>k<walk_units (os_walk (\<lambda>_. True) p (Dir n True es)). clk (ticks w + k) \<le> d)"
    by blast
  with size_walk_deadline[OF r] have "res = None" by simp
  with r show ?thesis by (simp add: get_folder_size_def)
qed

text \<open>A directory that cannot be listed makes \<^verbatim>\<open>os.walk\<close> yield nothing, so the loop body
  with its checks never runs: the size is 0, whatever the clock and the deadline.\<close>

lemma get_folder_size_unlistable:
  "get_folder_size clk p (Dir n False es) deadline w = (Some 0, w)"
  by (simp add: get_folder_size_def)

text \<open>
  Claim C3 says that every folder size computed after the deadline has passed is
  \<open>None\<close>.  With a budget of half a second and a clock that advances one second per
  reading, the deadline has passed when the size of the root is computed, so the root and
  the empty directory \<open>sub\<close> get \<open>None\<close>; the directory \<open>locked\<close>, sized in between, gets
  0.
\<close>

theorem unlistable_folder_sized_after_deadline:
  "build_tree_json second_clock example_abspath (Some example_locked) ''/A'' (IgnoreNames [])
     (Some (1 / 2)) world0
   = (Some (Inr (Tree (folder_attrs ''A'' PyNone) ''/A''
        (Some [Tree (folder_attrs ''locked'' (PyInt 0)) ''/A/locked'' None,
               Tree (folder_attrs ''sub'' PyNone) ''/A/sub'' None]))),
      \<lparr>ticks = 3,
       stdout = [''[INFO] Building tree-style JSON structure. This may take a while for large directories...'']\<rparr>)"
  by code_simp

section \<open>Where the identifiers are distinct\<close>

text \<open>
  The assumption \<open>ids_distinct\<close> of the theorems above follows from what a file system
  and \<^verbatim>\<open>os.path.abspath\<close> guarantee: sibling names differ and hold no separator, so the
  paths of different entries differ.
\<close>

lemma join_valid: "p \<noteq> [] \<Longrightarrow> valid_name n \<Longrightarrow> join p n = sep p @ n"
  by (cases n) (auto simp: join_def sep_def valid_name_def)

lemma valid_name_last: "valid_name n \<Longrightarrow> last n \<noteq> CHR ''/''"
proof
  assume v: "valid_name n" and l: "last n = CHR ''/''"
  from v have "n \<noteq> []" by (simp add: valid_name_def)
  then have "last n \<in> set n" by (rule last_in_set)
  with l v show False by (simp add: valid_name_def)
qed

lemma sep_join: "p \<noteq> [] \<Longrightarrow> valid_name n \<Longrightarrow> sep (join p n) = sep p @ n @ ''/''"
  using valid_name_last[of n] by (simp add: join_valid) (simp add: sep_def valid_name_def)

lemma join_nonempty: "p \<noteq> [] \<Longrightarrow> valid_name n \<Longrightarrow> join p n \<noteq> []"
  by (simp add: join_valid valid_name_def)

lemma first_seg_head: "valid_name n \<Longrightarrow> first_seg p (sep p @ n) = n"
  by (auto simp: first_seg_def valid_name_def takeWhile_eq_all_conv)

lemma first_seg_below: "valid_name n \<Longrightarrow> first_seg p (sep p @ n @ ''/'' @ t) = n"
  by (auto simp: first_seg_def valid_name_def takeWhile_tail)

lemma paths_below_form:
  assumes "p \<noteq> []" "wf_entry e" "s \<in> set (paths_below keep p e)"
  shows "\<exists>t. s = sep p @ t \<and> t \<noteq> []"
  using assms
proof (induction e arbitrary: p s)
  case (File n f s')
  then show ?case by simp
next
  case (Dir n ok es)
  from Dir.prems(3) have ok: ok by (auto split: if_splits)
  from Dir.prems(3) ok obtain x where x: "x \<in> set es"
    and s: "s = join p (ename x) \<or> s \<in> set (paths_below keep (join p (ename x)) x)"
    by auto
  from Dir.prems(2) x have vn: "valid_name (ename x)" and wx: "wf_entry x"
    by (auto simp: list_all_iff)
  from s show ?case
  proof
    assume "s = join p (ename x)"
    with vn Dir.prems(1) show ?thesis by (auto simp: join_valid valid_name_def)
  next
    assume "s \<in> set (paths_below keep (join p (ename x)) x)"
    from Dir.IH[OF x join_nonempty[OF Dir.prems(1) vn] wx this]
    obtain t where "s = sep (join p (ename x)) @ t" by blast
    then show ?thesis by (simp add: sep_join[OF Dir.prems(1) vn])
  qed
qed

lemma paths_below_first_seg:
  assumes "p \<noteq> []" "valid_name n" "wf_entry x"
    and "s \<in> set (join p n # paths_below keep (join p n) x)"
  shows "first_seg p s = n"
proof (cases "s = join p n")
  case True
  then show ?thesis using assms(1,2) by (simp add: join_valid first_seg_head)
next
  case False
  with assms(4) have "s \<in> set (paths_below keep (join p n) x)" by simp
  from paths_below_form[OF join_nonempty[OF assms(1,2)] assms(3) this]
  obtain t where "s = sep (join p n) @ t" by blast
  then have "s = sep p @ n @ ''/'' @ t" by (simp add: sep_join[OF assms(1,2)])
  then show ?thesis using first_seg_below[OF assms(2)] by simp
qed

lemma distinct_concat_key:
  assumes "distinct (map k xs)"
    and "\<And>x. x \<in> set xs \<Longrightarrow> distinct (f x)"
    and "\<And>x s. x \<in> set xs \<Longrightarrow> s \<in> set (f x) \<Longrightarrow> key s = k x"
  shows "distinct (concat (map f xs))"
  using assms
proof (induction xs)
  case Nil
  show ?case by simp
next
  case (Cons x xs)
  have "set (f x) \<inter> set (concat (map f xs)) = {}"
  proof (rule ccontr)
    assume "set (f x) \<inter> set (concat (map f xs)) \<noteq> {}"
    then obtain s y where "s \<in> set (f x)" "y \<in> set xs" "s \<in> set (f y)" by auto
    with Cons.prems(3)[of x s] Cons.prems(3)[of y s] have "k x = k y" by simp
    with \<open>y \<in> set xs\<close> Cons.prems(1) show False by auto
  qed
  moreover have "distinct (concat (map f xs))"
    by (rule Cons.IH) (use Cons.prems in auto)
  ultimately show ?case using Cons.prems(2)[of x] by simp
qed

lemma distinct_names_children:
  assumes "distinct (map ename es)"
  shows "distinct (map ename ([d \<leftarrow> es. is_dir d \<and> keep (ename d)] @ [f \<leftarrow> es. \<not> is_dir f]))"
proof -
  have inj: "inj_on ename (set es)" using assms by (simp add: distinct_map)
  have "distinct (map ename [d \<leftarrow> es. is_dir d \<and> keep (ename d)])"
    using assms by (rule distinct_map_filter)
  moreover have "distinct (map ename [f \<leftarrow> es. \<not> is_dir f])"
    using assms by (rule distinct_map_filter)
  moreover have "ename ` {d \<in> set es. is_dir d \<and> keep (ename d)} \<inter> ename ` {f \<in> set es. \<not> is_dir f} = {}"
    using inj by (auto dest: inj_onD)
  ultimately show ?thesis by simp
qed

lemma paths_below_distinct:
  assumes "p \<noteq> []" "wf_entry e"
  shows "distinct (paths_below keep p e)"
  using assms
proof (induction e arbitrary: p)
  case (File n f s)
  show ?case by simp
next
  case (Dir n ok es)
  show ?case
  proof (cases ok)
    case False
    then show ?thesis by simp
  next
    case True
    let ?ys = "[d \<leftarrow> es. is_dir d \<and> keep (ename d)] @ [f \<leftarrow> es. \<not> is_dir f]"
    let ?f = "\<lambda>x. join p (ename x) # paths_below keep (join p (ename x)) x"
    from Dir.prems(2) have names: "distinct (map ename es)"
      and vn: "\<And>x. x \<in> set es \<Longrightarrow> valid_name (ename x)"
      and wf: "\<And>x. x \<in> set es \<Longrightarrow> wf_entry x" by (auto simp: list_all_iff)
    have "distinct (concat (map ?f ?ys))"
    proof (rule distinct_concat_key[where k = ename and key = "first_seg p"])
      show "distinct (map ename ?ys)" by (rule distinct_names_children[OF names])
    next
      fix x assume "x \<in> set ?ys"
      then have x: "x \<in> set es" by auto
      have ne: "join p (ename x) \<noteq> []" by (rule join_nonempty[OF Dir.prems(1) vn[OF x]])
      have "join p (ename x) \<notin> set (paths_below keep (join p (ename x)) x)"
      proof
        assume "join p (ename x) \<in> set (paths_below keep (join p (ename x)) x)"
        from paths_below_form[OF ne wf[OF x] this] obtain t where
          "join p (ename x) = sep (join p (ename x)) @ t" "t \<noteq> []" by blast
        then have "length (join p (ename x)) = length (sep (join p (ename x))) + length t" 
          by (metis length_append)
        moreover have "length (join p (ename x)) \<le> length (sep (join p (ename x)))"
          by (simp add: sep_def)
        ultimately show False using \<open>t \<noteq> []\<close> by simp
      qed
      with Dir.IH[OF x ne wf[OF x]] show "distinct (?f x)" by simp
    next
      fix x s assume "x \<in> set ?ys" and s: "s \<in> set (?f x)"
      then have x: "x \<in> set es" by auto
      show "first_seg p s = ename x"
        by (rule paths_below_first_seg[OF Dir.prems(1) vn[OF x] wf[OF x] s])
    qed
    with True show ?thesis by simp
  qed
qed

lemma located_paths:
  assumes st: "abspath_stable ap" and "ap p = p" "wf_entry e"
  shows "map fst (located ap keep p e) = paths_below keep p e"
  using assms(2,3)
proof (induction e arbitrary: p)
  case (File n f s)
  show ?case by simp
next
  case (Dir n ok es)
  show ?case
  proof (cases ok)
    case False
    then show ?thesis by simp
  next
    case True
    let ?ys = "[d \<leftarrow> es. is_dir d \<and> keep (ename d)] @ [f \<leftarrow> es. \<not> is_dir f]"
    have each: "child_id ap p x = join p (ename x)
                \<and> map fst (located ap keep (join p (ename x)) x) = paths_below keep (join p (ename x)) x"
      if "x \<in> set ?ys" for x
    proof -
      from that have x: "x \<in> set es" by auto
      with Dir.prems(2) have vn: "valid_name (ename x)" and wx: "wf_entry x"
        by (auto simp: list_all_iff)
      have fx: "ap (join p (ename x)) = join p (ename x)"
        using st Dir.prems(1) vn by (simp add: abspath_stable_def)
      from Dir.IH[OF x fx wx] fx show ?thesis by (simp add: child_id_def)
    qed
    have "map fst (concat (map (\<lambda>x. (child_id ap p x, x) # located ap keep (join p (ename x)) x) ?ys))
            = concat (map (\<lambda>x. join p (ename x) # paths_below keep (join p (ename x)) x) ?ys)"
      unfolding map_concat map_map comp_def
      by (rule arg_cong[where f = concat], rule map_cong[OF refl]) (use each in simp)
    with True show ?thesis by simp
  qed
qed

lemma wellformed_ids_distinct:
  assumes "abspath_stable abspath"
    and "case fs of None \<Rightarrow> True | Some e \<Rightarrow> wf_entry e"
  shows "ids_distinct abspath ignore P fs"
proof (cases fs)
  case None
  then show ?thesis by (simp add: ids_distinct_def build_items_def walk_ids_def)
next
  case (Some e)
  let ?r = "abspath P"
  let ?k = "\<lambda>d. d \<notin> normalize_ignores ignore"
  from assms(1) have r: "?r \<noteq> []" "abspath ?r = ?r" by (simp_all add: abspath_stable_def)
  from assms(2) Some have wf: "wf_entry e" by simp
  have m: "mset (walk_ids abspath (os_walk ?k ?r e)) = mset (paths_below ?k ?r e)"
    using located_ids_mset[of abspath ?k ?r e] located_paths[OF assms(1) r(2) wf, of ?k]
    by (metis mset_map)
  have d: "distinct (paths_below ?k ?r e)" by (rule paths_below_distinct[OF r(1) wf])
  have n: "?r \<notin> set (paths_below ?k ?r e)"
  proof
    assume "?r \<in> set (paths_below ?k ?r e)"
    from paths_below_form[OF r(1) wf this] obtain t where "?r = sep ?r @ t" "t \<noteq> []" by blast
    then have "length ?r = length (sep ?r) + length t" by (metis length_append)
    moreover have "length ?r \<le> length (sep ?r)" by (simp add: sep_def)
    ultimately show False using \<open>t \<noteq> []\<close> by simp
  qed
  have "distinct (walk_ids abspath (os_walk ?k ?r e))"
    using mset_eq_imp_distinct_iff[OF m] d by simp
  moreover have "?r \<notin> set (walk_ids abspath (os_walk ?k ?r e))"
    using n mset_eq_setD[OF m] by simp
  ultimately show ?thesis using Some r(2) by (simp add: ids_distinct_def build_items_def)
qed

lemma example_abspath_stable: "abspath_stable example_abspath"
proof -
  have "example_abspath (join q n) = join q n" if "example_abspath q = q" "valid_name n" for q n
  proof -
    from that(1) have q: "q \<noteq> []" "hd q = CHR ''/''"
      by (auto simp: example_abspath_def split: if_splits)
    with that(2) have "join q n = sep q @ n" by (simp add: join_valid)
    moreover have "hd (sep q @ n) = CHR ''/''" "sep q @ n \<noteq> []" using q by (auto simp: sep_def)
    ultimately show ?thesis by (simp add: example_abspath_def)
  qed
  then show ?thesis by (auto simp: abspath_stable_def example_abspath_def)
qed

end
